theory Spec2Isabelle
  imports Complex_Main
begin

section \<open>JavaScript numbers\<close>

text \<open>
  The source computes with the JavaScript type \<^verbatim>\<open>number\<close>, the IEEE 754 binary64
  format: the finite values are the rationals \<open>m * 2 ^ e\<close> with \<open>\<bar>m\<bar> < 2 ^ 53\<close> and
  \<open>- 1074 \<le> e\<close> below \<open>2 ^ 1024\<close> in magnitude, and there are a negative zero, two
  infinities and NaN. A finite value is carried as the rational it denotes, so equality
  of two \<open>Num\<close> values is equality of the numbers; \<open>Num 0\<close> is the positive zero.
  Every arithmetic operation returns the exact result rounded to the nearest
  representable value, ties going to the value with an even significand.
\<close>

datatype number = NaN | PosInf | NegInf | NegZero | Num rat

definition pow2 :: "int \<Rightarrow> rat" where
  "pow2 e = (if 0 \<le> e then 2 ^ nat e else 1 / 2 ^ nat (- e))"

text \<open>The number of binary digits of a positive integer.\<close>

function bitlen :: "int \<Rightarrow> nat" where
  "bitlen a = (if 0 < a then Suc (bitlen (a div 2)) else 0)"
  by pat_completeness auto
termination
  by (relation "measure nat") auto

declare bitlen.simps [simp del]

text \<open>
  For \<open>0 < q\<close>, \<open>ilog2 q\<close> is the exponent \<open>e\<close> with \<open>2 ^ e \<le> q < 2 ^ (e + 1)\<close>: the
  difference of the digit counts of numerator and denominator, or one less.
\<close>

definition ilog2 :: "rat \<Rightarrow> int" where
  "ilog2 q = (let a = fst (quotient_of q); b = snd (quotient_of q);
                  d = int (bitlen a) - int (bitlen b)
              in if pow2 d \<le> q then d else d - 1)"

definition round_half_even :: "rat \<Rightarrow> int" where
  "round_half_even x = (let n = \<lfloor>x\<rfloor>; r = x - of_int n in
     if r < 1 / 2 then n else if 1 / 2 < r then n + 1 else if even n then n else n + 1)"

text \<open>
  Rounding a positive rational to 53 significant binary digits; below \<open>2 ^ (- 1022)\<close>
  the spacing stays \<open>2 ^ (- 1074)\<close> (the subnormal range, where the result may be 0).
\<close>

definition round_pos :: "rat \<Rightarrow> rat" where
  "round_pos q = (let e = max (ilog2 q) (- 1022) - 52
                  in of_int (round_half_even (q / pow2 e)) * pow2 e)"

definition round64 :: "rat \<Rightarrow> number" where
  "round64 q = (if q = 0 then Num 0
     else if 0 < q then (let r = round_pos q in if pow2 1024 \<le> r then PosInf else Num r)
     else (let r = round_pos (- q) in
             if pow2 1024 \<le> r then NegInf else if r = 0 then NegZero else Num (- r)))"

definition is_zero :: "number \<Rightarrow> bool" where
  "is_zero x = (x = NegZero \<or> x = Num 0)"

text \<open>The sign bit of a number other than NaN.\<close>

definition negative :: "number \<Rightarrow> bool" where
  "negative x = (case x of NegInf \<Rightarrow> True | NegZero \<Rightarrow> True | Num a \<Rightarrow> a < 0 | _ \<Rightarrow> False)"

definition signed_zero :: "bool \<Rightarrow> number" where
  "signed_zero s = (if s then NegZero else Num 0)"

definition signed_inf :: "bool \<Rightarrow> number" where
  "signed_inf s = (if s then NegInf else PosInf)"

text \<open>The operator \<^verbatim>\<open>+\<close> on numbers.\<close>

definition fadd :: "number \<Rightarrow> number \<Rightarrow> number" where
  "fadd x y = (case (x, y) of
      (NaN, _) \<Rightarrow> NaN
    | (_, NaN) \<Rightarrow> NaN
    | (PosInf, NegInf) \<Rightarrow> NaN
    | (NegInf, PosInf) \<Rightarrow> NaN
    | (PosInf, _) \<Rightarrow> PosInf
    | (_, PosInf) \<Rightarrow> PosInf
    | (NegInf, _) \<Rightarrow> NegInf
    | (_, NegInf) \<Rightarrow> NegInf
    | (NegZero, NegZero) \<Rightarrow> NegZero
    | (NegZero, Num b) \<Rightarrow> Num b
    | (Num a, NegZero) \<Rightarrow> Num a
    | (Num a, Num b) \<Rightarrow> round64 (a + b))"

definition fneg :: "number \<Rightarrow> number" where
  "fneg x = (case x of NaN \<Rightarrow> NaN | PosInf \<Rightarrow> NegInf | NegInf \<Rightarrow> PosInf
     | NegZero \<Rightarrow> Num 0 | Num a \<Rightarrow> (if a = 0 then NegZero else Num (- a)))"

text \<open>The operator \<^verbatim>\<open>-\<close> on numbers.\<close>

definition fsub :: "number \<Rightarrow> number \<Rightarrow> number" where
  "fsub x y = fadd x (fneg y)"

text \<open>The operator \<^verbatim>\<open>/\<close> on numbers; a division by zero is not an error.\<close>

definition fdiv :: "number \<Rightarrow> number \<Rightarrow> number" where
  "fdiv x y = (case (x, y) of
      (NaN, _) \<Rightarrow> NaN
    | (_, NaN) \<Rightarrow> NaN
    | (Num a, Num b) \<Rightarrow>
        (if b = 0 then (if a = 0 then NaN else signed_inf (a < 0))
         else if a = 0 then signed_zero (b < 0)
         else round64 (a / b))
    | _ \<Rightarrow>
        (if (x = PosInf \<or> x = NegInf) \<and> (y = PosInf \<or> y = NegInf) then NaN
         else if x = PosInf \<or> x = NegInf then signed_inf (negative x \<noteq> negative y)
         else if y = PosInf \<or> y = NegInf then signed_zero (negative x \<noteq> negative y)
         else if is_zero y then (if is_zero x then NaN else signed_inf (negative x \<noteq> negative y))
         else signed_zero (negative x \<noteq> negative y)))"

text \<open>The operator \<^verbatim>\<open>===\<close> on numbers: NaN equals nothing, the two zeros are equal.\<close>

definition js_eq :: "number \<Rightarrow> number \<Rightarrow> bool" where
  "js_eq x y = (x \<noteq> NaN \<and> y \<noteq> NaN \<and> (x = y \<or> (is_zero x \<and> is_zero y)))"

text \<open>\<^verbatim>\<open>Math.floor\<close>.\<close>

definition js_floor :: "number \<Rightarrow> number" where
  "js_floor x = (case x of Num a \<Rightarrow> Num (of_int \<lfloor>a\<rfloor>) | _ \<Rightarrow> x)"

text \<open>
  An array length or a loop counter as a number: the integer itself (lengths are below
  \<open>2 ^ 32\<close>, hence representable).
\<close>

definition of_count :: "nat \<Rightarrow> number" where
  "of_count k = Num (of_nat k)"

text \<open>
  The finite values of the format, and the numbers that are values of the format at all
  (a \<open>Num\<close> may carry any rational; the operations only ever return representable ones).
\<close>

definition representable :: "rat \<Rightarrow> bool" where
  "representable q = (\<exists>m e. q = of_int m * pow2 e \<and> \<bar>m\<bar> < 2 ^ 53 \<and> - 1074 \<le> e \<and> \<bar>q\<bar> < pow2 1024)"

definition valid :: "number \<Rightarrow> bool" where
  "valid x = (case x of Num a \<Rightarrow> representable a | _ \<Rightarrow> True)"

text \<open>
  The sum of an array of numbers, added from left to right starting at \<open>0\<close>
  (\<^verbatim>\<open>xs.reduce((a, b) => a + b, 0)\<close>).
\<close>

definition sum_numbers :: "number list \<Rightarrow> number" where
  "sum_numbers xs = foldl fadd (Num 0) xs"


section \<open>Cost allocation\<close>

record Person =
  id_p :: string
  name :: string
  nights :: "bool list"

record PersonCost =
  personId :: string
  perNight :: "number list"
  total_c :: number

text \<open>
  The condition \<^verbatim>\<open>person.nights[i]\<close>: reading an array past its end yields
  \<^verbatim>\<open>undefined\<close>, which is falsy, and raises nothing.
\<close>

definition stays :: "Person \<Rightarrow> nat \<Rightarrow> bool" where
  "stays p i = (i < length (nights p) \<and> nights p ! i)"

text \<open>\<^verbatim>\<open>people.filter((p) => p.nights[i]).length\<close>\<close>

definition peopleThisNight :: "Person list \<Rightarrow> nat \<Rightarrow> nat" where
  "peopleThisNight people i = length (filter (\<lambda>p. stays p i) people)"

definition costThisNight :: "Person list \<Rightarrow> number \<Rightarrow> nat \<Rightarrow> number" where
  "costThisNight people pricePerNight i =
     (let k = peopleThisNight people i
      in if 0 < k then fdiv pricePerNight (of_count k) else Num 0)"

text \<open>
  The inner loop \<^verbatim>\<open>for (let i = 0; i < nights; i++)\<close>, started at \<open>i\<close> with the
  current \<^verbatim>\<open>perNight\<close> array and \<^verbatim>\<open>total\<close>. The night count is a count, a
  natural number.
\<close>

function night_loop ::
  "Person list \<Rightarrow> number \<Rightarrow> Person \<Rightarrow> nat \<Rightarrow> nat \<Rightarrow> number list \<times> number \<Rightarrow> number list \<times> number"
where
  "night_loop people pricePerNight person n i (pn, tot) =
     (if i < n then
        (if stays person i
         then (let c = costThisNight people pricePerNight i
               in night_loop people pricePerNight person n (i + 1) (pn @ [c], fadd tot c))
         else night_loop people pricePerNight person n (i + 1) (pn @ [Num 0], tot))
      else (pn, tot))"
  by pat_completeness auto
termination
  by (relation "measure (\<lambda>(people, pricePerNight, person, n, i, st). n - i)") auto

declare night_loop.simps [simp del]

text \<open>The outer loop \<^verbatim>\<open>for (const person of people)\<close>, pushing onto \<^verbatim>\<open>costs\<close>.\<close>

fun person_loop ::
  "Person list \<Rightarrow> number \<Rightarrow> nat \<Rightarrow> Person list \<Rightarrow> PersonCost list \<Rightarrow> PersonCost list"
where
  "person_loop people pricePerNight n [] costs = costs"
| "person_loop people pricePerNight n (person # rest) costs =
     (let (pn, tot) = night_loop people pricePerNight person n 0 ([], Num 0)
      in person_loop people pricePerNight n rest
           (costs @ [\<lparr>personId = id_p person, perNight = pn, total_c = tot\<rparr>]))"

definition calculateCosts :: "Person list \<Rightarrow> number \<Rightarrow> nat \<Rightarrow> PersonCost list" where
  "calculateCosts people totalPrice n =
     (if n = 0 \<or> js_eq totalPrice (Num 0) \<or> length people = 0 then []
      else (let pricePerNight = fdiv totalPrice (of_count n)
            in person_loop people pricePerNight n people []))"

text \<open>The loops in closed form.\<close>

definition night_cost :: "Person list \<Rightarrow> number \<Rightarrow> Person \<Rightarrow> nat \<Rightarrow> number" where
  "night_cost people ppn person i = (if stays person i then costThisNight people ppn i else Num 0)"

definition night_total :: "Person list \<Rightarrow> number \<Rightarrow> Person \<Rightarrow> number \<Rightarrow> nat list \<Rightarrow> number" where
  "night_total people ppn person tot js =
     foldl (\<lambda>acc j. if stays person j then fadd acc (costThisNight people ppn j) else acc) tot js"

definition cost_of :: "Person list \<Rightarrow> number \<Rightarrow> nat \<Rightarrow> Person \<Rightarrow> PersonCost" where
  "cost_of people ppn n person =
     \<lparr>personId = id_p person,
      perNight = map (night_cost people ppn person) [0..<n],
      total_c = night_total people ppn person (Num 0) [0..<n]\<rparr>"

subsection \<open>Allocations without rounding\<close>

text \<open>
  A list of rationals adds up without rounding when every partial sum, taken from left
  to right, is a value of the format.
\<close>

fun exact_from :: "rat \<Rightarrow> rat list \<Rightarrow> bool" where
  "exact_from a [] = True"
| "exact_from a (x # xs) = (representable (a + x) \<and> exact_from (a + x) xs)"

definition exact_sums :: "rat list \<Rightarrow> bool" where
  "exact_sums xs = exact_from 0 xs"

text \<open>
  The share of person \<open>p\<close> in night \<open>i\<close> in exact arithmetic, for the price \<open>pr\<close>:
  the nightly price \<open>pr / n\<close> divided by the number of people present, or 0.
\<close>

definition share :: "Person list \<Rightarrow> rat \<Rightarrow> nat \<Rightarrow> Person \<Rightarrow> nat \<Rightarrow> rat" where
  "share people pr n p i =
     (if stays p i then pr / of_nat n / of_nat (peopleThisNight people i) else 0)"

text \<open>The number of nights of the stay with at least one person present.\<close>

definition attended :: "Person list \<Rightarrow> nat \<Rightarrow> nat" where
  "attended people n = length (filter (\<lambda>i. 0 < peopleThisNight people i) [0..<n])"

text \<open>
  No operation of the allocation rounds: the nightly price is a value of the format,
  and so is every partial sum of the shares of a night over the roster, of the shares
  of a person over the nights, and of the persons' totals over the roster.
\<close>

definition exact_allocation :: "Person list \<Rightarrow> rat \<Rightarrow> nat \<Rightarrow> bool" where
  "exact_allocation people pr n =
     (representable (pr / of_nat n) \<and>
      (\<forall>i<n. exact_sums (map (\<lambda>p. share people pr n p i) people)) \<and>
      (\<forall>p\<in>set people. exact_sums (map (share people pr n p) [0..<n])) \<and>
      exact_sums (map (\<lambda>p. sum_list (map (share people pr n p) [0..<n])) people))"

section \<open>Cost allocation on a store\<close>

text \<open>
  Arrays and objects of the program are references into a store that every part of the
  program shares. To state that \<open>calculateCosts\<close> writes to nothing it is given, the
  function is modelled once more, on an explicit store: a list of objects, a reference
  being an index into it. A new object is appended, so that no allocation overwrites a
  live object. Reading a reference that does not hold an object of the expected shape is
  the value \<open>None\<close>; the type checker excludes it.
\<close>

type_synonym ref = nat

datatype object =
    Flags "bool list"
  | PersonObj string string ref
  | PersonArray "ref list"
  | NumberArray "number list"
  | CostObj string ref number
  | CostArray "ref list"

type_synonym store = "object list"

definition lookup :: "store \<Rightarrow> ref \<Rightarrow> object option" where
  "lookup s r = (if r < length s then Some (s ! r) else None)"

definition alloc :: "object \<Rightarrow> store \<Rightarrow> ref \<times> store" where
  "alloc v s = (length s, s @ [v])"

text \<open>\<^verbatim>\<open>p.nights[i]\<close> as a condition, for a reference \<open>p\<close> to a person.\<close>

definition nights_flag :: "store \<Rightarrow> ref \<Rightarrow> nat \<Rightarrow> bool option" where
  "nights_flag s p i =
     (case lookup s p of
        Some (PersonObj pid nm f) \<Rightarrow>
          (case lookup s f of
             Some (Flags bs) \<Rightarrow> Some (i < length bs \<and> bs ! i)
           | _ \<Rightarrow> None)
      | _ \<Rightarrow> None)"

text \<open>
  \<^verbatim>\<open>people.filter((p) => p.nights[i])\<close>: the elements of the array are read, the
  callback is applied to each, and the elements it accepts are put into a new array.
\<close>

fun filter_nights :: "store \<Rightarrow> ref list \<Rightarrow> nat \<Rightarrow> ref list option" where
  "filter_nights s [] i = Some []"
| "filter_nights s (p # ps) i =
     (case nights_flag s p i of
        None \<Rightarrow> None
      | Some b \<Rightarrow>
          (case filter_nights s ps i of
             None \<Rightarrow> None
           | Some rs \<Rightarrow> Some (if b then p # rs else rs)))"

definition people_filter :: "ref \<Rightarrow> nat \<Rightarrow> store \<Rightarrow> (ref \<times> store) option" where
  "people_filter people i s =
     (case lookup s people of
        Some (PersonArray ps) \<Rightarrow>
          (case filter_nights s ps i of
             None \<Rightarrow> None
           | Some rs \<Rightarrow> Some (alloc (PersonArray rs) s))
      | _ \<Rightarrow> None)"

text \<open>\<^verbatim>\<open>.length\<close> of an array of persons.\<close>

definition people_length :: "store \<Rightarrow> ref \<Rightarrow> nat option" where
  "people_length s r = (case lookup s r of Some (PersonArray ps) \<Rightarrow> Some (length ps) | _ \<Rightarrow> None)"

text \<open>\<^verbatim>\<open>perNight.push(c)\<close> and \<^verbatim>\<open>costs.push(c)\<close>: the array is updated in place.\<close>

definition push_number :: "ref \<Rightarrow> number \<Rightarrow> store \<Rightarrow> store option" where
  "push_number r c s =
     (case lookup s r of
        Some (NumberArray xs) \<Rightarrow> Some (s[r := NumberArray (xs @ [c])])
      | _ \<Rightarrow> None)"

definition push_cost :: "ref \<Rightarrow> ref \<Rightarrow> store \<Rightarrow> store option" where
  "push_cost r c s =
     (case lookup s r of
        Some (CostArray cs) \<Rightarrow> Some (s[r := CostArray (cs @ [c])])
      | _ \<Rightarrow> None)"

text \<open>
  The inner loop, from \<open>i\<close> on: \<open>perNightRef\<close> is the reference held by \<^verbatim>\<open>perNight\<close>, \<open>total_v\<close> the local variable \<^verbatim>\<open>total\<close>.
\<close>

function night_for ::
  "ref \<Rightarrow> number \<Rightarrow> ref \<Rightarrow> nat \<Rightarrow> ref \<Rightarrow> nat \<Rightarrow> number \<Rightarrow> store \<Rightarrow> (number \<times> store) option"
where
  "night_for people pricePerNight person n perNightRef i total_v s =
     (if i < n then
        (case nights_flag s person i of
           None \<Rightarrow> None
         | Some True \<Rightarrow>
             (case people_filter people i s of
                None \<Rightarrow> None
              | Some (present, s1) \<Rightarrow>
                  (case people_length s1 present of
                     None \<Rightarrow> None
                   | Some count \<Rightarrow>
                       (let cost =
                              (if 0 < count
                               then fdiv pricePerNight (of_count count) else Num 0)
                        in case push_number perNightRef cost s1 of
                             None \<Rightarrow> None
                           | Some s2 \<Rightarrow>
                               night_for people pricePerNight person n perNightRef (i + 1)
                                 (fadd total_v cost) s2)))
         | Some False \<Rightarrow>
             (case push_number perNightRef (Num 0) s of
                None \<Rightarrow> None
              | Some s1 \<Rightarrow> night_for people pricePerNight person n perNightRef (i + 1) total_v s1))
      else Some (total_v, s))"
  by pat_completeness auto
termination
  by (relation "measure (\<lambda>(people, pricePerNight, person, n, perNightRef, i, total_v, s). n - i)") auto

declare night_for.simps [simp del]

text \<open>
  Whatever the store, the inner loop changes no object that exists when it starts but
  the array \<open>perNightRef\<close>.
\<close>

lemma push_number_frame:
  "push_number r c s = Some s' \<Longrightarrow>
   length s' = length s \<and> (\<forall>x<length s. x \<noteq> r \<longrightarrow> s' ! x = s ! x)"
  by (auto simp: push_number_def split: option.splits object.splits)

lemma people_filter_frame:
  "people_filter people i s = Some (present, s') \<Longrightarrow>
   length s \<le> length s' \<and> (\<forall>x<length s. s' ! x = s ! x)"
  by (auto simp: people_filter_def alloc_def nth_append split: option.splits object.splits)

lemma night_for_frame:
  "night_for people ppn person n perNightRef i total_v s = Some (t, s') \<Longrightarrow>
   length s \<le> length s' \<and> (\<forall>x<length s. x \<noteq> perNightRef \<longrightarrow> s' ! x = s ! x)"
proof (induction "n - i" arbitrary: i total_v s)
  case 0
  then have "\<not> i < n" by simp
  with 0(2) have "s' = s"
    by (subst (asm) night_for.simps) simp
  then show ?case by simp
next
  case (Suc d)
  then have less: "i < n" and d: "d = n - (i + 1)"
    by simp_all
  note run = Suc.prems
  show ?case
  proof (cases "nights_flag s person i")
    case None
    with run less show ?thesis
      by (subst (asm) night_for.simps) simp
  next
    case (Some b)
    show ?thesis
    proof (cases b)
      case False
      with run less Some obtain s1 where
        p: "push_number perNightRef (Num 0) s = Some s1"
        and r: "night_for people ppn person n perNightRef (i + 1) total_v s1 = Some (t, s')"
        by (subst (asm) night_for.simps) (auto split: option.splits)
      from push_number_frame [OF p] Suc.hyps(1) [OF d r]
      show ?thesis
        by auto
    next
      case True
      with run less Some obtain present s1 k s2 where
        f: "people_filter people i s = Some (present, s1)"
        and p: "push_number perNightRef (if 0 < k then fdiv ppn (of_count k) else Num 0) s1 = Some s2"
        and r: "night_for people ppn person n perNightRef (i + 1)
                  (fadd total_v (if 0 < k then fdiv ppn (of_count k) else Num 0)) s2 = Some (t, s')"
        by (subst (asm) night_for.simps) (auto simp: Let_def split: option.splits)
      from people_filter_frame [OF f] push_number_frame [OF p] Suc.hyps(1) [OF d r]
      show ?thesis
        by auto
    qed
  qed
qed

text \<open>
  The outer loop \<^verbatim>\<open>for (const person of people)\<close>: the iterator reads the array at
  each step, at the index \<open>k\<close>; \<open>costs\<close> is a reference. The object pushed takes its
  \<^verbatim>\<open>personId\<close> from the person and shares the array \<open>perNightRef\<close>.
\<close>

function person_for :: "ref \<Rightarrow> number \<Rightarrow> nat \<Rightarrow> ref \<Rightarrow> nat \<Rightarrow> store \<Rightarrow> store option" where
  "person_for people pricePerNight n costs k s =
     (case lookup s people of
        Some (PersonArray ps) \<Rightarrow>
          (if k < length ps then
             (let person = ps ! k;
                  (perNightRef, s1) = alloc (NumberArray []) s
              in case night_for people pricePerNight person n perNightRef 0 (Num 0) s1 of
                   None \<Rightarrow> None
                 | Some (total_v, s2) \<Rightarrow>
                     (case lookup s2 person of
                        Some (PersonObj pid nm f) \<Rightarrow>
                          (let (c, s3) = alloc (CostObj pid perNightRef total_v) s2
                           in case push_cost costs c s3 of
                                None \<Rightarrow> None
                              | Some s4 \<Rightarrow> person_for people pricePerNight n costs (k + 1) s4)
                      | _ \<Rightarrow> None))
           else Some s)
      | _ \<Rightarrow> None)"
  by pat_completeness auto
termination
proof (relation "measure (\<lambda>(people, pricePerNight, n, costs, k, s).
    (case lookup s people of Some (PersonArray ps) \<Rightarrow> length ps - k | _ \<Rightarrow> 0))")
  show "wf (measure (\<lambda>(people, pricePerNight, n, costs, k, s).
    (case lookup s people of Some (PersonArray ps) \<Rightarrow> length ps - k | _ \<Rightarrow> 0)))"
    by simp
next
  fix people :: ref and pricePerNight :: number and n costs k :: nat and s :: store
    and x2 ps person xa perNightRef s1 x2a total_v s2 pid xc c s3 s4
  assume look: "lookup s people = Some x2" "x2 = PersonArray ps" and k: "k < length ps"
    and al: "xa = alloc (NumberArray []) s" "(perNightRef, s1) = xa"
    and run: "night_for people pricePerNight person n perNightRef 0 (Num 0) s1 = Some x2a"
      "(total_v, s2) = x2a"
    and al2: "xc = alloc (CostObj pid perNightRef total_v) s2" "(c, s3) = xc"
    and push: "push_cost costs c s3 = Some s4"
  from al have x: "perNightRef = length s" and y: "s1 = s @ [NumberArray []]"
    by (simp_all add: alloc_def)
  from look have p: "people < length s" and sp: "s ! people = PersonArray ps"
    by (simp_all add: lookup_def split: if_splits)
  from run have "night_for people pricePerNight person n perNightRef 0 (Num 0) s1 = Some (total_v, s2)"
    by simp
  from night_for_frame [OF this] p
  have s2: "people < length s2" "s2 ! people = PersonArray ps"
    by (simp_all add: x y nth_append sp)
  from al2 have "s3 = s2 @ [CostObj pid perNightRef total_v]"
    by (simp add: alloc_def)
  with s2 have s3: "people < length s3" "s3 ! people = PersonArray ps"
    by (simp_all add: nth_append)
  from push s3 have "people < length s4 \<and> s4 ! people = PersonArray ps"
    by (auto simp: push_cost_def lookup_def nth_list_update split: if_splits object.splits)
  then have "lookup s4 people = Some (PersonArray ps)"
    by (simp add: lookup_def)
  with look k
  show "((people, pricePerNight, n, costs, k + 1, s4), (people, pricePerNight, n, costs, k, s))
      \<in> measure (\<lambda>(people, pricePerNight, n, costs, k, s).
          (case lookup s people of Some (PersonArray ps) \<Rightarrow> length ps - k | _ \<Rightarrow> 0))"
    by simp
qed

declare person_for.simps [simp del]

text \<open>
  The function: the result is a reference to the array of costs. The operands of
  \<^verbatim>\<open>||\<close> are evaluated from left to right, and the array is read by the last only.
\<close>

definition calculateCosts_run :: "ref \<Rightarrow> number \<Rightarrow> nat \<Rightarrow> store \<Rightarrow> (ref \<times> store) option" where
  "calculateCosts_run people totalPrice n s =
     (if n = 0 \<or> js_eq totalPrice (Num 0) then Some (alloc (CostArray []) s)
      else (case people_length s people of
              None \<Rightarrow> None
            | Some len \<Rightarrow>
                (if len = 0 then Some (alloc (CostArray []) s)
                 else (let pricePerNight = fdiv totalPrice (of_count n);
                           (costs, s1) = alloc (CostArray []) s
                       in case person_for people pricePerNight n costs 0 s1 of
                            None \<Rightarrow> None
                          | Some s2 \<Rightarrow> Some (costs, s2)))))"

text \<open>The values that references stand for: the roster and the costs, read off a store.\<close>

definition read_person :: "store \<Rightarrow> ref \<Rightarrow> Person option" where
  "read_person s p =
     (case lookup s p of
        Some (PersonObj pid nm f) \<Rightarrow>
          (case lookup s f of
             Some (Flags bs) \<Rightarrow> Some \<lparr>id_p = pid, name = nm, nights = bs\<rparr>
           | _ \<Rightarrow> None)
      | _ \<Rightarrow> None)"

fun read_all :: "('a \<Rightarrow> 'b option) \<Rightarrow> 'a list \<Rightarrow> 'b list option" where
  "read_all f [] = Some []"
| "read_all f (x # xs) =
     (case f x of
        None \<Rightarrow> None
      | Some y \<Rightarrow> (case read_all f xs of None \<Rightarrow> None | Some ys \<Rightarrow> Some (y # ys)))"

definition read_people :: "store \<Rightarrow> ref \<Rightarrow> Person list option" where
  "read_people s r =
     (case lookup s r of Some (PersonArray ps) \<Rightarrow> read_all (read_person s) ps | _ \<Rightarrow> None)"

definition read_cost :: "store \<Rightarrow> ref \<Rightarrow> PersonCost option" where
  "read_cost s c =
     (case lookup s c of
        Some (CostObj pid pn tot) \<Rightarrow>
          (case lookup s pn of
             Some (NumberArray xs) \<Rightarrow> Some \<lparr>personId = pid, perNight = xs, total_c = tot\<rparr>
           | _ \<Rightarrow> None)
      | _ \<Rightarrow> None)"

definition read_costs :: "store \<Rightarrow> ref \<Rightarrow> PersonCost list option" where
  "read_costs s r =
     (case lookup s r of Some (CostArray cs) \<Rightarrow> read_all (read_cost s) cs | _ \<Rightarrow> None)"

text \<open>A store extends another when it has every object of the other, unchanged.\<close>

definition extends :: "store \<Rightarrow> store \<Rightarrow> bool" where
  "extends s s' = (take (length s) s' = s)"

section \<open>Dates\<close>

text \<open>
  \<open>calculateNights\<close> and \<open>getNightDates\<close> compute with the host's \<^verbatim>\<open>Date\<close> objects.
  Their semantics is taken from the ECMAScript language specification (ECMA-262,
  section "Date Objects"), whose names are kept. A time value is a number of
  milliseconds since 1970-01-01T00:00:00Z; the time values that occur are integers, and
  an invalid date (time value NaN) is \<open>None\<close>.

  Two things are the host's and not the program's, and are parameters of the model:
  the local time zone adjustment \<open>LocalTZA t isUTC\<close> (the offset of local time from UTC
  in milliseconds, at the UTC time \<open>t\<close> when \<open>isUTC\<close> and at the local time \<open>t\<close>
  otherwise), and what \<^verbatim>\<open>Date.parse\<close> makes of a string that is not in the date-time
  string format, which the specification leaves to the implementation.
\<close>

record host =
  LocalTZA :: "int \<Rightarrow> bool \<Rightarrow> int"
  legacy_parse :: "string \<Rightarrow> int option"

definition msPerDay :: int where
  "msPerDay = 86400000"

definition Day :: "int \<Rightarrow> int" where
  "Day t = t div msPerDay"

definition TimeWithinDay :: "int \<Rightarrow> int" where
  "TimeWithinDay t = t mod msPerDay"

definition DaysInYear :: "int \<Rightarrow> int" where
  "DaysInYear y = (if y mod 4 \<noteq> 0 then 365 else if y mod 100 \<noteq> 0 then 366
                   else if y mod 400 \<noteq> 0 then 365 else 366)"

definition DayFromYear :: "int \<Rightarrow> int" where
  "DayFromYear y = 365 * (y - 1970) + (y - 1969) div 4 - (y - 1901) div 100 + (y - 1601) div 400"

lemma div_succ:
  fixes x c :: int
  assumes "0 < c"
  shows "(x + 1) div c = x div c + (if (x + 1) mod c = 0 then 1 else 0)"
proof -
  define r where "r = x mod c"
  have r: "0 \<le> r" "r < c" and x: "x = c * (x div c) + r"
    by (simp_all add: r_def assms)
  show ?thesis
  proof (cases "r = c - 1")
    case True
    then have e: "x + 1 = c * (x div c + 1) + 0"
      using x by (simp add: algebra_simps)
    have "(x + 1) div c = x div c + 1"
      by (rule int_div_pos_eq [OF e]) (use assms in simp_all)
    moreover have "(x + 1) mod c = 0"
      by (rule int_mod_pos_eq [OF e]) (use assms in simp_all)
    ultimately show ?thesis by simp
  next
    case False
    then have e: "x + 1 = c * (x div c) + (r + 1)"
      using x by simp
    have b: "0 \<le> r + 1" "r + 1 < c"
      using r False by simp_all
    have "(x + 1) div c = x div c"
      by (rule int_div_pos_eq [OF e b])
    moreover have "(x + 1) mod c = r + 1"
      by (rule int_mod_pos_eq [OF e b])
    ultimately show ?thesis using r by simp
  qed
qed

lemma mod_shift:
  fixes y :: int
  shows "(y - c * k) mod c = y mod c"
proof -
  have "y - c * k = y + c * (- k)" by simp
  then show ?thesis by (simp only: mod_mult_self2)
qed

text \<open>The first day of the next year comes a year's length after the first day of a year.\<close>

lemma DayFromYear_step: "DayFromYear (y + 1) = DayFromYear y + DaysInYear y"
proof -
  have m4: "(y - 1969 + 1) mod 4 = y mod 4"
    using mod_shift [of y 4 492] by (simp add: algebra_simps)
  have m100: "(y - 1901 + 1) mod 100 = y mod 100"
    using mod_shift [of y 100 19] by (simp add: algebra_simps)
  have m400: "(y - 1601 + 1) mod 400 = y mod 400"
    using mod_shift [of y 400 4] by (simp add: algebra_simps)
  have a: "(y + 1 - 1969) div 4 = (y - 1969) div 4 + (if y mod 4 = 0 then 1 else 0)"
    using div_succ [of 4 "y - 1969"] m4 by (simp add: algebra_simps)
  have b: "(y + 1 - 1901) div 100 = (y - 1901) div 100 + (if y mod 100 = 0 then 1 else 0)"
    using div_succ [of 100 "y - 1901"] m100 by (simp add: algebra_simps)
  have c: "(y + 1 - 1601) div 400 = (y - 1601) div 400 + (if y mod 400 = 0 then 1 else 0)"
    using div_succ [of 400 "y - 1601"] m400 by (simp add: algebra_simps)
  have d100: "y mod 4 = 0" if "y mod 100 = 0"
  proof -
    from that have "100 dvd y" by (simp add: mod_eq_0_iff_dvd)
    moreover have "(4::int) dvd 100" by simp
    ultimately have "4 dvd y" by (rule dvd_trans [rotated])
    then show ?thesis by (simp add: mod_eq_0_iff_dvd)
  qed
  have d400: "y mod 100 = 0" if "y mod 400 = 0"
  proof -
    from that have "400 dvd y" by (simp add: mod_eq_0_iff_dvd)
    moreover have "(100::int) dvd 400" by simp
    ultimately have "100 dvd y" by (rule dvd_trans [rotated])
    then show ?thesis by (simp add: mod_eq_0_iff_dvd)
  qed
  show ?thesis
    unfolding DayFromYear_def DaysInYear_def a b c
    using d100 d400 by auto
qed

lemma DayFromYear_less: "DayFromYear y < DayFromYear (y + 1)"
  by (simp add: DayFromYear_step DaysInYear_def)

text \<open>
  \<open>YearFromTime t\<close> is the largest year \<open>y\<close> whose first day is not after \<open>t\<close>. It is
  found by counting up from an estimate that is not too large (a year has at most 366
  days, and at least 365).
\<close>

function year_search :: "int \<Rightarrow> int \<Rightarrow> int" where
  "year_search d y = (if DayFromYear (y + 1) \<le> d then year_search d (y + 1) else y)"
  by pat_completeness auto
termination
proof (relation "measure (\<lambda>(d, y). nat (d - DayFromYear y))")
  show "wf (measure (\<lambda>(d, y). nat (d - DayFromYear y)))" by simp
next
  fix d y assume "DayFromYear (y + 1) \<le> d"
  with DayFromYear_less [of y]
  show "((d, y + 1), (d, y)) \<in> measure (\<lambda>(d, y). nat (d - DayFromYear y))"
    by simp
qed

declare year_search.simps [simp del]

definition YearFromTime :: "int \<Rightarrow> int" where
  "YearFromTime t = (let d = Day t in year_search d (1970 + (if 0 \<le> d then d div 366 else d div 365)))"

definition InLeapYear :: "int \<Rightarrow> int" where
  "InLeapYear t = (if DaysInYear (YearFromTime t) = 366 then 1 else 0)"

definition DayWithinYear :: "int \<Rightarrow> int" where
  "DayWithinYear t = Day t - DayFromYear (YearFromTime t)"

definition MonthFromTime :: "int \<Rightarrow> int" where
  "MonthFromTime t = (let d = DayWithinYear t; l = InLeapYear t in
     if d < 31 then 0 else if d < 59 + l then 1 else if d < 90 + l then 2
     else if d < 120 + l then 3 else if d < 151 + l then 4 else if d < 181 + l then 5
     else if d < 212 + l then 6 else if d < 243 + l then 7 else if d < 273 + l then 8
     else if d < 304 + l then 9 else if d < 334 + l then 10 else 11)"

definition DateFromTime :: "int \<Rightarrow> int" where
  "DateFromTime t = (let d = DayWithinYear t; l = InLeapYear t; m = MonthFromTime t in
     if m = 0 then d + 1 else if m = 1 then d - 30 else if m = 2 then d - 58 - l
     else if m = 3 then d - 89 - l else if m = 4 then d - 119 - l else if m = 5 then d - 150 - l
     else if m = 6 then d - 180 - l else if m = 7 then d - 211 - l else if m = 8 then d - 242 - l
     else if m = 9 then d - 272 - l else if m = 10 then d - 303 - l else d - 333 - l)"

definition HourFromTime :: "int \<Rightarrow> int" where
  "HourFromTime t = (t div 3600000) mod 24"

definition MinFromTime :: "int \<Rightarrow> int" where
  "MinFromTime t = (t div 60000) mod 60"

definition SecFromTime :: "int \<Rightarrow> int" where
  "SecFromTime t = (t div 1000) mod 60"

definition msFromTime :: "int \<Rightarrow> int" where
  "msFromTime t = t mod 1000"

definition MakeTime :: "int \<Rightarrow> int \<Rightarrow> int \<Rightarrow> int \<Rightarrow> int" where
  "MakeTime h m s milli = h * 3600000 + m * 60000 + s * 1000 + milli"

text \<open>The day within the year \<open>y\<close> on which month \<open>m\<close> (0 to 11) starts.\<close>

definition month_start :: "int \<Rightarrow> int \<Rightarrow> int" where
  "month_start y m = (let l = (if DaysInYear y = 366 then 1 else 0) in
     if m = 0 then 0 else if m = 1 then 31 else if m = 2 then 59 + l
     else if m = 3 then 90 + l else if m = 4 then 120 + l else if m = 5 then 151 + l
     else if m = 6 then 181 + l else if m = 7 then 212 + l else if m = 8 then 243 + l
     else if m = 9 then 273 + l else if m = 10 then 304 + l else 334 + l)"

text \<open>
  \<open>MakeDay year month date\<close>: the day number of the first day of the month (months
  beyond 0 to 11 carry into the year), plus \<open>date - 1\<close>; the date may lie outside the
  month, which is how \<^verbatim>\<open>setDate\<close> rolls over into the next month or year.
\<close>

definition MakeDay :: "int \<Rightarrow> int \<Rightarrow> int \<Rightarrow> int" where
  "MakeDay year month date = (let ym = year + month div 12; mn = month mod 12
     in DayFromYear ym + month_start ym mn + date - 1)"

definition MakeDate :: "int \<Rightarrow> int \<Rightarrow> int" where
  "MakeDate day time = day * msPerDay + time"

definition TimeClip :: "int \<Rightarrow> int option" where
  "TimeClip t = (if \<bar>t\<bar> \<le> 8640000000000000 then Some t else None)"

definition LocalTime :: "host \<Rightarrow> int \<Rightarrow> int" where
  "LocalTime env t = t + LocalTZA env t True"

definition UTC :: "host \<Rightarrow> int \<Rightarrow> int" where
  "UTC env t = t - LocalTZA env t False"

definition digit :: "char \<Rightarrow> int option" where
  "digit c = (let k = (of_char c :: nat) in if 48 \<le> k \<and> k \<le> 57 then Some (int k - 48) else None)"

fun digits :: "string \<Rightarrow> int option" where
  "digits [] = Some 0"
| "digits (c # cs) = (case (digit c, digits cs) of
      (Some a, Some b) \<Rightarrow> Some (a * 10 ^ length cs + b) | _ \<Rightarrow> None)"

definition DaysInMonth :: "int \<Rightarrow> int \<Rightarrow> int" where
  "DaysInMonth y m = (if m = 2 then (if DaysInYear y = 366 then 29 else 28)
     else if m = 4 \<or> m = 6 \<or> m = 9 \<or> m = 11 then 30 else 31)"

text \<open>
  The date part \<^verbatim>\<open>YYYY-MM-DD\<close> of the date-time string format: a four-digit year, a
  month from 01 to 12 and a day of that month. These are the valid year-month-day
  date strings.
\<close>

definition iso_date :: "string \<Rightarrow> (int \<times> int \<times> int) option" where
  "iso_date s =
     (if length s = 10 \<and> s ! 4 = CHR ''-'' \<and> s ! 7 = CHR ''-''
      then (case (digits (take 4 s), digits (take 2 (drop 5 s)), digits (drop 8 s)) of
          (Some y, Some m, Some d) \<Rightarrow>
             (if 1 \<le> m \<and> m \<le> 12 \<and> 1 \<le> d \<and> d \<le> DaysInMonth y m then Some (y, m, d) else None)
        | _ \<Rightarrow> None)
      else None)"

text \<open>The time part \<^verbatim>\<open>HH:mm:ss\<close>, as milliseconds within the day.\<close>

definition iso_time :: "string \<Rightarrow> int option" where
  "iso_time s =
     (if length s = 8 \<and> s ! 2 = CHR '':'' \<and> s ! 5 = CHR '':''
      then (case (digits (take 2 s), digits (take 2 (drop 3 s)), digits (drop 6 s)) of
          (Some h, Some mi, Some sec) \<Rightarrow>
             (if h \<le> 23 \<and> mi \<le> 59 \<and> sec \<le> 59 then Some (MakeTime h mi sec 0) else None)
        | _ \<Rightarrow> None)
      else None)"

text \<open>
  A string \<^verbatim>\<open>YYYY-MM-DDTHH:mm:ss\<close>, with no time zone offset, denotes a local time:
  the time value before the conversion to UTC.
\<close>

definition iso_local :: "string \<Rightarrow> int option" where
  "iso_local s =
     (if length s = 19 \<and> s ! 10 = CHR ''T''
      then (case (iso_date (take 10 s), iso_time (drop 11 s)) of
          (Some (y, m, d), Some tm) \<Rightarrow> Some (MakeDate (MakeDay y (m - 1) d) tm)
        | _ \<Rightarrow> None)
      else None)"

type_synonym Date = "int option"

text \<open>
  \<^verbatim>\<open>new Date(string)\<close>: a string of the form above is a local time, converted to UTC;
  every other string is the host's to interpret (the other forms of the date-time string
  format included, which the strings built by the program can take only from an input
  that is not a year-month-day date).
\<close>

definition Date_parse :: "host \<Rightarrow> string \<Rightarrow> Date" where
  "Date_parse env s = (case iso_local s of Some t \<Rightarrow> TimeClip (UTC env t) | None \<Rightarrow> legacy_parse env s)"

definition getTime :: "Date \<Rightarrow> number" where
  "getTime d = (case d of None \<Rightarrow> NaN | Some t \<Rightarrow> Num (of_int t))"

text \<open>The comparison \<^verbatim>\<open>a <= b\<close> of two dates: of their time values, false if one is NaN.\<close>

definition date_le :: "Date \<Rightarrow> Date \<Rightarrow> bool" where
  "date_le a b = (case (a, b) of (Some s, Some t) \<Rightarrow> s \<le> t | _ \<Rightarrow> False)"

text \<open>
  The source function. The test \<^verbatim>\<open>!checkIn\<close> on a string is true of the empty string
  only; \<^verbatim>\<open>1000 * 60 * 60 * 24\<close> is the number 86400000.
\<close>

definition calculateNights :: "host \<Rightarrow> string \<Rightarrow> string \<Rightarrow> number" where
  "calculateNights env checkIn checkOut =
     (if checkIn = [] \<or> checkOut = [] then Num 0
      else (let checkInDate = Date_parse env (checkIn @ ''T00:00:00'');
                checkOutDate = Date_parse env (checkOut @ ''T00:00:00'')
            in if date_le checkOutDate checkInDate then Num 0
               else (let diffTime = fsub (getTime checkOutDate) (getTime checkInDate);
                         diffDays = js_floor (fdiv diffTime (Num 86400000))
                     in diffDays)))"

text \<open>\<^verbatim>\<open>getDate\<close>: the day of the month in local time (NaN, here \<open>None\<close>, of an invalid date).\<close>

definition getDate :: "host \<Rightarrow> Date \<Rightarrow> int option" where
  "getDate env d = map_option (\<lambda>t. DateFromTime (LocalTime env t)) d"

text \<open>
  \<^verbatim>\<open>setDate\<close>: the date with the day of the month replaced, in local time, the year,
  the month and the time within the day kept.
\<close>

definition setDate :: "host \<Rightarrow> Date \<Rightarrow> int option \<Rightarrow> Date" where
  "setDate env d date = (case (d, date) of
      (Some tv, Some dt) \<Rightarrow>
        (let t = LocalTime env tv;
             newDate = MakeDate (MakeDay (YearFromTime t) (MonthFromTime t) dt) (TimeWithinDay t)
         in TimeClip (UTC env newDate))
    | _ \<Rightarrow> None)"

definition digit_char :: "int \<Rightarrow> char" where
  "digit_char k = ''0123456789'' ! nat k"

text \<open>The last \<open>w\<close> decimal digits of \<open>k\<close>, with leading zeros.\<close>

fun pad :: "nat \<Rightarrow> int \<Rightarrow> string" where
  "pad 0 k = []"
| "pad (Suc w) k = pad w (k div 10) @ [digit_char (k mod 10)]"

datatype error = RangeError

text \<open>
  \<^verbatim>\<open>toISOString\<close>: the date in UTC, as \<^verbatim>\<open>YYYY-MM-DDTHH:mm:ss.sssZ\<close> (years outside
  0 to 9999 with a sign and six digits). On an invalid date it throws a RangeError.
\<close>

definition toISOString :: "Date \<Rightarrow> error + string" where
  "toISOString d = (case d of None \<Rightarrow> Inl RangeError
     | Some t \<Rightarrow> (let y = YearFromTime t in
         Inr ((if 0 \<le> y \<and> y \<le> 9999 then pad 4 y
               else (if y < 0 then ''-'' else ''+'') @ pad 6 \<bar>y\<bar>)
              @ ''-'' @ pad 2 (MonthFromTime t + 1) @ ''-'' @ pad 2 (DateFromTime t)
              @ ''T'' @ pad 2 (HourFromTime t) @ '':'' @ pad 2 (MinFromTime t)
              @ '':'' @ pad 2 (SecFromTime t) @ ''.'' @ pad 3 (msFromTime t) @ ''Z'')))"

text \<open>\<^verbatim>\<open>s.split('T')\<close> of a string with at most one \<^verbatim>\<open>T\<close>, as the one above.\<close>

definition split_T :: "string \<Rightarrow> string list" where
  "split_T s = (let a = takeWhile (\<lambda>c. c \<noteq> CHR ''T'') s; b = dropWhile (\<lambda>c. c \<noteq> CHR ''T'') s
                in if b = [] then [a] else [a, tl b])"

text \<open>
  The loop of \<open>getNightDates\<close>, from \<open>i\<close> on with the dates pushed so far.
  \<^verbatim>\<open>new Date(checkInDate)\<close> is a date with the time value of \<^verbatim>\<open>checkInDate\<close>; the
  sum \<^verbatim>\<open>checkInDate.getDate() + i\<close> is a small integer, or NaN. An exception ends the
  function.
\<close>

function date_loop :: "host \<Rightarrow> Date \<Rightarrow> nat \<Rightarrow> nat \<Rightarrow> string list \<Rightarrow> error + string list" where
  "date_loop env checkInDate n i dates =
     (if i < n then
        (let nightDate = setDate env checkInDate (map_option (\<lambda>d. d + int i) (getDate env checkInDate))
         in case toISOString nightDate of
              Inl e \<Rightarrow> Inl e
            | Inr s \<Rightarrow> date_loop env checkInDate n (i + 1) (dates @ [hd (split_T s)]))
      else Inr dates)"
  by pat_completeness auto
termination
  by (relation "measure (\<lambda>(env, checkInDate, n, i, dates). n - i)") auto

declare date_loop.simps [simp del]

definition getNightDates :: "host \<Rightarrow> string \<Rightarrow> nat \<Rightarrow> error + string list" where
  "getNightDates env checkIn n =
     (if checkIn = [] \<or> n = 0 then Inr []
      else (let checkInDate = Date_parse env (checkIn @ ''T00:00:00'')
            in date_loop env checkInDate n 0 []))"

text \<open>
  Two hosts. A zone whose offset from UTC never changes (\<open>fixed_zone 0\<close> is UTC,
  \<open>fixed_zone 3600000\<close> is one hour east of Greenwich, as West Africa Time); and the
  zone of New York during 2024: five hours west of Greenwich, four hours from
  2024-03-10 07:00 UTC to 2024-11-03 06:00 UTC (local times skipped or repeated by a
  change are read with the offset before it). Neither accepts any string outside the
  date-time string format.
\<close>

definition fixed_zone :: "int \<Rightarrow> host" where
  "fixed_zone off = \<lparr>LocalTZA = (\<lambda>t isUTC. off), legacy_parse = (\<lambda>s. None)\<rparr>"

definition new_york_2024 :: host where
  "new_york_2024 = \<lparr>LocalTZA = (\<lambda>t isUTC.
       if isUTC then (if 1710054000000 \<le> t \<and> t < 1730613600000 then - 14400000 else - 18000000)
       else (if 1710039600000 \<le> t \<and> t < 1730599200000 then - 14400000 else - 18000000)),
     legacy_parse = (\<lambda>s. None)\<rparr>"

section \<open>Properties of rounding\<close>

lemma pow2_powi: "pow2 e = 2 powi e"
  by (simp add: pow2_def power_int_def inverse_eq_divide power_one_over)

lemma pow2_pos [simp]: "0 < pow2 e"
  by (simp add: pow2_powi)

lemma pow2_nz [simp]: "pow2 e \<noteq> 0"
  by (simp add: pow2_powi)

lemma abs_pow2 [simp]: "\<bar>pow2 e\<bar> = pow2 e"
  by (simp add: less_imp_le)

lemma pow2_add: "pow2 (a + b) = pow2 a * pow2 b"
  by (simp add: pow2_powi power_int_add)

lemma pow2_diff: "pow2 (a - b) = pow2 a / pow2 b"
  by (simp add: pow2_powi power_int_diff)

lemma pow2_mono: "a \<le> b \<Longrightarrow> pow2 a \<le> pow2 b"
  by (simp add: pow2_powi power_int_increasing)

lemma pow2_strict_mono: "a < b \<Longrightarrow> pow2 a < pow2 b"
  by (simp add: pow2_powi power_int_strict_increasing)

lemma pow2_less_cancel: "pow2 a < pow2 b \<Longrightarrow> a < b"
  using pow2_mono [of b a] by (cases "a < b") auto

lemma pow2_nat: "0 \<le> e \<Longrightarrow> pow2 e = of_int (2 ^ nat e)"
  by (simp add: pow2_def)

lemma pow2_1 [simp]: "pow2 1 = 2"
  by (simp add: pow2_def)

lemma pow2_0 [simp]: "pow2 0 = 1"
  by (simp add: pow2_def)

lemma pow2_53: "of_int (2 ^ 53) = pow2 53"
  by (simp add: pow2_def)

lemma bitlen_bounds: "0 < a \<Longrightarrow> a < 2 ^ bitlen a \<and> 2 ^ bitlen a \<le> 2 * a"
proof (induction a rule: bitlen.induct)
  case (1 a)
  show ?case
  proof (cases "0 < a div 2")
    case False
    with "1.prems" have "a = 1" by arith
    then show ?thesis
      by (simp add: bitlen.simps [of 1] bitlen.simps [of 0])
  next
    case True
    from "1.IH" [OF "1.prems" True]
    have ih: "a div 2 < 2 ^ bitlen (a div 2)" "2 ^ bitlen (a div 2) \<le> 2 * (a div 2)"
      by simp_all
    have eq: "bitlen a = Suc (bitlen (a div 2))"
      using "1.prems" by (subst bitlen.simps) simp
    show ?thesis
      unfolding eq using ih by simp arith
  qed
qed


lemma ilog2_bounds:
  assumes "0 < q"
  shows "pow2 (ilog2 q) \<le> q \<and> q < pow2 (ilog2 q + 1)"
proof -
  obtain a b where ab: "quotient_of q = (a, b)"
    by (cases "quotient_of q")
  then have q: "q = of_int a / of_int b" and b: "0 < b"
    by (simp_all add: quotient_of_div quotient_of_denom_pos)
  from assms q b have a: "0 < a"
    by (simp add: zero_less_divide_iff)
  define la lb where "la = bitlen a" and "lb = bitlen b"
  define d where "d = int la - int lb"
  have A: "(of_int a :: rat) < 2 ^ la" "(2 :: rat) ^ la \<le> 2 * of_int a"
    using bitlen_bounds [OF a] unfolding la_def
    by (metis of_int_less_iff of_int_numeral of_int_power,
        metis of_int_le_iff of_int_mult of_int_numeral of_int_power)
  have B: "(of_int b :: rat) < 2 ^ lb" "(2 :: rat) ^ lb \<le> 2 * of_int b"
    using bitlen_bounds [OF b] unfolding lb_def
    by (metis of_int_less_iff of_int_numeral of_int_power,
        metis of_int_le_iff of_int_mult of_int_numeral of_int_power)
  have pd: "pow2 d = 2 ^ la / 2 ^ lb"
    by (simp add: d_def pow2_powi power_int_diff)
  have bpos: "(0 :: rat) < of_int b" and apos: "(0 :: rat) < of_int a"
    using a b by simp_all
  have up: "q < pow2 (d + 1)"
  proof -
    have "of_int a * (2 :: rat) ^ lb < 2 ^ la * (2 * of_int b)"
      using A(1) B(2) apos bpos
      by (meson mult_strict_mono' less_imp_le zero_less_power zero_less_numeral order_less_le_trans mult_pos_pos
          mult_le_cancel_left_pos mult_less_cancel_right_pos)
    then have "of_int a / of_int b < (2 :: rat) * (2 ^ la / 2 ^ lb)"
      using bpos by (simp add: field_simps)
    then show ?thesis
      by (simp add: q pow2_add pd mult.commute)
  qed
  have low: "pow2 (d - 1) \<le> q"
  proof -
    have "(2 :: rat) ^ la * of_int b \<le> (2 * of_int a) * 2 ^ lb"
      using A(2) B(1) apos bpos
      by (meson mult_mono less_imp_le zero_less_power zero_less_numeral mult_nonneg_nonneg zero_le_numeral
          of_int_nonneg)
    then have "(2 ^ la / 2 ^ lb) / (2 :: rat) \<le> of_int a / of_int b"
      using bpos by (simp add: field_simps)
    then show ?thesis
      by (simp add: q pow2_diff pd)
  qed
  have il: "ilog2 q = (if pow2 d \<le> q then d else d - 1)"
    by (simp add: ilog2_def ab d_def la_def lb_def)
  show ?thesis
    using up low by (auto simp: il)
qed

lemma ilog2_unique:
  assumes "0 < q" and "pow2 L \<le> q" and "q < pow2 (L + 1)"
  shows "ilog2 q = L"
proof -
  from ilog2_bounds [OF assms(1)]
  have b: "pow2 (ilog2 q) \<le> q" "q < pow2 (ilog2 q + 1)"
    by simp_all
  have "pow2 L < pow2 (ilog2 q + 1)"
    using assms(2) b(2) by simp
  then have 1: "L < ilog2 q + 1"
    by (rule pow2_less_cancel)
  have "pow2 (ilog2 q) < pow2 (L + 1)"
    using assms(3) b(1) by simp
  then have 2: "ilog2 q < L + 1"
    by (rule pow2_less_cancel)
  from 1 2 show ?thesis by simp
qed


lemma round_half_even_near:
  assumes "\<bar>x - of_int n\<bar> < 1 / 2"
  shows "round_half_even x = n"
proof (cases "of_int n \<le> x")
  case True
  with assms have "\<lfloor>x\<rfloor> = n"
    by (intro floor_unique) (auto simp: abs_if split: if_splits)
  with assms True show ?thesis
    by (simp add: round_half_even_def Let_def abs_if split: if_splits)
next
  case False
  with assms have fl: "\<lfloor>x\<rfloor> = n - 1"
    by (intro floor_unique) (auto simp: abs_if split: if_splits)
  with assms False show ?thesis
    by (auto simp: round_half_even_def Let_def abs_if split: if_splits)
qed

lemma round_half_even_of_int [simp]: "round_half_even (of_int n) = n"
  by (rule round_half_even_near) simp

lemma round_half_even_tie:
  assumes "\<bar>x - of_int n\<bar> = 1 / 2" and "even n"
  shows "round_half_even x = n"
proof (cases "of_int n \<le> x")
  case True
  with assms have x: "x = of_int n + 1 / 2"
    by (simp add: abs_if split: if_splits)
  then have "\<lfloor>x\<rfloor> = n"
    by (intro floor_unique) auto
  with x assms(2) show ?thesis
    by (simp add: round_half_even_def Let_def)
next
  case False
  with assms have x: "x = of_int n - 1 / 2"
    by (simp add: abs_if split: if_splits)
  then have "\<lfloor>x\<rfloor> = n - 1"
    by (intro floor_unique) auto
  with x assms(2) show ?thesis
    by (simp add: round_half_even_def Let_def)
qed

lemma round_half_even_le:
  assumes "x \<le> of_int N"
  shows "round_half_even x \<le> N"
proof -
  have fl: "\<lfloor>x\<rfloor> \<le> N"
    using assms by (simp add: floor_le_iff)
  show ?thesis
  proof (cases "\<lfloor>x\<rfloor> = N")
    case True
    then have "x = of_int N"
      using assms by (metis of_int_floor_le order_antisym)
    then show ?thesis by simp
  next
    case False
    with fl have "\<lfloor>x\<rfloor> + 1 \<le> N" by simp
    then show ?thesis
      by (simp add: round_half_even_def Let_def)
  qed
qed

lemma round_half_even_ge:
  assumes "of_int N \<le> x"
  shows "N \<le> round_half_even x"
proof -
  have "N \<le> \<lfloor>x\<rfloor>"
    using assms by (simp add: le_floor_iff)
  then show ?thesis
    by (simp add: round_half_even_def Let_def)
qed


lemma representableI:
  "q = of_int m * pow2 e \<Longrightarrow> \<bar>m\<bar> < 2 ^ 53 \<Longrightarrow> - 1074 \<le> e \<Longrightarrow> \<bar>q\<bar> < pow2 1024 \<Longrightarrow> representable q"
  unfolding representable_def by blast

lemma representable_minus:
  assumes "representable q"
  shows "representable (- q)"
proof -
  from assms obtain m e where "q = of_int m * pow2 e" "\<bar>m\<bar> < 2 ^ 53" "- 1074 \<le> e" "\<bar>q\<bar> < pow2 1024"
    unfolding representable_def by blast
  then show ?thesis
    by (intro representableI [of _ "- m" e]) simp_all
qed

lemma representable_0 [simp]: "representable 0"
  by (rule representableI [of _ 0 0]) simp_all

lemma round_pos_eq:
  assumes "0 < q" and "pow2 L \<le> q" and "q < pow2 (L + 1)"
    and "round_half_even (q / pow2 (max L (- 1022) - 52)) = n"
  shows "round_pos q = of_int n * pow2 (max L (- 1022) - 52)"
  using assms by (simp add: round_pos_def ilog2_unique [OF assms(1-3)])

lemma round_pos_exact:
  assumes "0 < q" and "q = of_int m * pow2 e" and "\<bar>m\<bar> < 2 ^ 53" and "- 1074 \<le> e"
  shows "round_pos q = q"
proof -
  define L where "L = ilog2 q"
  define e0 where "e0 = max L (- 1022) - 52"
  from ilog2_bounds [OF assms(1)] have L: "pow2 L \<le> q" "q < pow2 (L + 1)"
    by (simp_all add: L_def)
  have mpos: "0 < m"
    using assms(1,2) pow2_pos [of e] by (simp add: zero_less_mult_iff not_less [symmetric] less_imp_le)
  have m53: "m < 2 ^ 53"
    using assms(3) by simp
  have "(of_int m :: rat) < of_int (2 ^ 53)"
    using m53 by (simp only: of_int_less_iff)
  then have "q < of_int (2 ^ 53) * pow2 e"
    unfolding assms(2) by (rule mult_strict_right_mono) (rule pow2_pos)
  also have "\<dots> = pow2 (53 + e)"
    by (simp only: pow2_53 pow2_add)
  finally have "pow2 L < pow2 (53 + e)"
    using L(1) by simp
  then have "L < 53 + e"
    by (rule pow2_less_cancel)
  with assms(4) have le: "e0 \<le> e"
    by (simp add: e0_def)
  define k where "k = nat (e - e0)"
  have pk: "pow2 (e - e0) = of_int (2 ^ k)"
    using le by (simp add: pow2_nat k_def)
  have "q / pow2 e0 = of_int m * pow2 (e - e0)"
    by (simp add: assms(2) pow2_diff)
  also have "\<dots> = of_int (m * 2 ^ k)"
    by (simp add: pk)
  finally have quot: "q / pow2 e0 = of_int (m * 2 ^ k)" .
  have "round_pos q = of_int (m * 2 ^ k) * pow2 e0"
    unfolding e0_def
    by (rule round_pos_eq [OF assms(1) L])
      (simp only: quot [unfolded e0_def] round_half_even_of_int)
  also have "\<dots> = q / pow2 e0 * pow2 e0"
    by (simp only: quot)
  also have "\<dots> = q"
    by simp
  finally show ?thesis .
qed

lemma round64_exact:
  assumes "representable q"
  shows "round64 q = Num q"
proof -
  from assms obtain m e where me: "q = of_int m * pow2 e" "\<bar>m\<bar> < 2 ^ 53" "- 1074 \<le> e"
    and bound: "\<bar>q\<bar> < pow2 1024"
    unfolding representable_def by blast
  consider "q = 0" | "0 < q" | "q < 0" by linarith
  then show ?thesis
  proof cases
    case 1
    then show ?thesis by (simp add: round64_def)
  next
    case 2
    with round_pos_exact [OF 2 me] bound show ?thesis
      by (simp add: round64_def)
  next
    case 3
    then have pos: "0 < - q" by simp
    have "round_pos (- q) = - q"
      by (rule round_pos_exact [OF pos, of "- m" e]) (use me in simp_all)
    with 3 bound show ?thesis
      by (simp add: round64_def)
  qed
qed


lemma round_pos_representable:
  assumes "0 < q" and "round_pos q < pow2 1024"
  shows "representable (round_pos q)"
proof -
  define L where "L = ilog2 q"
  define e0 where "e0 = max L (- 1022) - 52"
  define n where "n = round_half_even (q / pow2 e0)"
  from ilog2_bounds [OF assms(1)] have L: "pow2 L \<le> q" "q < pow2 (L + 1)"
    by (simp_all add: L_def)
  have rp: "round_pos q = of_int n * pow2 e0"
    by (simp add: round_pos_def L_def e0_def n_def Let_def)
  have e0: "- 1074 \<le> e0" "L + 1 - e0 \<le> 53"
    by (simp_all add: e0_def)
  have "of_int 0 \<le> q / pow2 e0"
    using assms(1) by (simp add: less_imp_le)
  then have n0: "0 \<le> n"
    unfolding n_def by (rule round_half_even_ge)
  have "q / pow2 e0 < pow2 (L + 1) / pow2 e0"
    using L(2) by (simp add: divide_strict_right_mono)
  also have "\<dots> = pow2 (L + 1 - e0)"
    by (simp add: pow2_diff)
  also have "\<dots> \<le> pow2 53"
    using e0(2) by (rule pow2_mono)
  finally have "q / pow2 e0 \<le> of_int (2 ^ 53)"
    by (simp only: pow2_53 less_imp_le)
  then have n53: "n \<le> 2 ^ 53"
    unfolding n_def by (rule round_half_even_le)
  have bound: "\<bar>round_pos q\<bar> < pow2 1024"
    using assms(2) n0 by (simp add: rp abs_mult)
  show ?thesis
  proof (cases "n = 2 ^ 53")
    case False
    with n53 n0 have "\<bar>n\<bar> < 2 ^ 53" by simp
    then show ?thesis
      using rp e0(1) bound by (intro representableI [of _ n e0]) simp_all
  next
    case True
    have "of_int n * pow2 e0 = of_int (2 ^ 52) * (pow2 1 * pow2 e0)"
      by (simp add: True)
    also have "\<dots> = of_int (2 ^ 52) * pow2 (e0 + 1)"
      by (simp only: pow2_add [symmetric] add.commute)
    finally have "round_pos q = of_int (2 ^ 52) * pow2 (e0 + 1)"
      by (simp only: rp)
    then show ?thesis
      using e0(1) bound by (intro representableI [of _ "2 ^ 52" "e0 + 1"]) simp_all
  qed
qed

lemma valid_round64 [simp]: "valid (round64 q)"
proof -
  have "representable (round_pos p)" if "0 < p" "\<not> pow2 1024 \<le> round_pos p" for p
    using that by (intro round_pos_representable) simp_all
  then show ?thesis
    by (auto simp: round64_def valid_def Let_def representable_minus)
qed

lemma round_pos_pos:
  assumes "pow2 (- 1074) \<le> q"
  shows "0 < round_pos q"
proof -
  have q: "0 < q"
    using assms pow2_pos [of "- 1074"] by (rule less_le_trans [rotated])
  define L where "L = ilog2 q"
  define e0 where "e0 = max L (- 1022) - 52"
  from ilog2_bounds [OF q] have L: "pow2 L \<le> q"
    by (simp_all add: L_def)
  have "pow2 e0 \<le> q"
  proof (cases "- 1022 \<le> L")
    case True
    then have "e0 \<le> L" by (simp add: e0_def)
    from pow2_mono [OF this] L show ?thesis by simp
  next
    case False
    then have "e0 = - 1074" by (simp add: e0_def)
    with assms show ?thesis by simp
  qed
  then have "of_int 1 \<le> q / pow2 e0"
    by (simp add: le_divide_eq)
  then have "1 \<le> round_half_even (q / pow2 e0)"
    by (rule round_half_even_ge)
  then have "0 < of_int (round_half_even (q / pow2 e0)) * pow2 e0"
    by (simp add: zero_less_mult_iff)
  then show ?thesis
    by (simp add: round_pos_def L_def e0_def Let_def)
qed

lemma representable_grid:
  assumes "representable q"
  shows "\<exists>k. q = of_int k * pow2 (- 1074)"
proof -
  from assms obtain m e where me: "q = of_int m * pow2 e" "- 1074 \<le> e"
    unfolding representable_def by blast
  have "pow2 e = pow2 (e + 1074) * pow2 (- 1074)"
    by (simp add: pow2_add [symmetric])
  also have "pow2 (e + 1074) = of_int (2 ^ nat (e + 1074))"
    using me(2) by (intro pow2_nat) simp
  finally have "q = of_int (m * 2 ^ nat (e + 1074)) * pow2 (- 1074)"
    by (simp add: me(1))
  then show ?thesis ..
qed

lemma grid_away_from_zero:
  assumes "q = of_int k * pow2 (- 1074)" and "q \<noteq> 0"
  shows "pow2 (- 1074) \<le> \<bar>q\<bar>"
proof -
  from assms have "k \<noteq> 0" by auto
  then have "1 \<le> \<bar>k\<bar>"
    by simp
  then have "(of_int 1 :: rat) \<le> of_int \<bar>k\<bar>"
    by (simp only: of_int_le_iff)
  then have "(1 :: rat) \<le> \<bar>of_int k\<bar>"
    by simp
  from mult_right_mono [OF this, of "pow2 (- 1074)"]
  have "pow2 (- 1074) \<le> \<bar>of_int k\<bar> * pow2 (- 1074)"
    by (simp add: less_imp_le)
  then show ?thesis
    by (simp only: assms(1) abs_mult abs_pow2)
qed

lemma round64_sum_not_NegZero:
  assumes "representable a" and "representable b"
  shows "round64 (a + b) \<noteq> NegZero"
proof (cases "a + b < 0")
  case False
  then show ?thesis
    by (simp add: round64_def Let_def)
next
  case True
  from representable_grid [OF assms(1)] representable_grid [OF assms(2)]
  obtain k l where "a = of_int k * pow2 (- 1074)" "b = of_int l * pow2 (- 1074)"
    by blast
  then have "a + b = of_int (k + l) * pow2 (- 1074)"
    by (simp add: algebra_simps)
  from grid_away_from_zero [OF this] True have "pow2 (- 1074) \<le> - (a + b)"
    by simp
  from round_pos_pos [OF this] True show ?thesis
    by (simp add: round64_def Let_def)
qed


lemma valid_simps [simp]:
  "valid NaN" "valid PosInf" "valid NegInf" "valid NegZero" "valid (Num a) = representable a"
  by (simp_all add: valid_def)

lemma valid_signed [simp]: "valid (signed_zero s)" "valid (signed_inf s)"
  by (simp_all add: signed_zero_def signed_inf_def)

lemma valid_fdiv [simp]: "valid (fdiv x y)"
  by (cases x; cases y) (simp_all add: fdiv_def)

lemma valid_fadd: "valid x \<Longrightarrow> valid y \<Longrightarrow> valid (fadd x y)"
  by (cases x; cases y) (simp_all add: fadd_def)

lemma fadd_not_NegZero: "valid x \<Longrightarrow> valid y \<Longrightarrow> x \<noteq> NegZero \<Longrightarrow> fadd x y \<noteq> NegZero"
  by (cases x; cases y) (simp_all add: fadd_def round64_sum_not_NegZero)

lemma fadd_zero_right: "valid x \<Longrightarrow> x \<noteq> NegZero \<Longrightarrow> fadd x (Num 0) = x"
  by (cases x) (simp_all add: fadd_def round64_exact)

lemma fdiv_one: "valid x \<Longrightarrow> fdiv x (Num 1) = x"
  by (cases x)
    (simp_all add: fdiv_def round64_exact signed_zero_def signed_inf_def is_zero_def negative_def)


lemma round_half_even_scaled_le:
  assumes "0 < q"
  shows "round_half_even (q / pow2 (max (ilog2 q) (- 1022) - 52)) \<le> 2 ^ 53"
proof -
  define L where "L = ilog2 q"
  define e0 where "e0 = max L (- 1022) - 52"
  from ilog2_bounds [OF assms(1)] have L: "q < pow2 (L + 1)"
    by (simp_all add: L_def)
  have e0: "L + 1 - e0 \<le> 53"
    by (simp_all add: e0_def)
  have "q / pow2 e0 < pow2 (L + 1) / pow2 e0"
    using L by (simp add: divide_strict_right_mono)
  also have "\<dots> = pow2 (L + 1 - e0)"
    by (simp add: pow2_diff)
  also have "\<dots> \<le> pow2 53"
    using e0 by (rule pow2_mono)
  finally have "q / pow2 e0 \<le> of_int (2 ^ 53)"
    by (simp only: pow2_53 less_imp_le)
  then show ?thesis
    unfolding e0_def L_def by (rule round_half_even_le)
qed

lemma round_pos_le:
  assumes "0 < q"
  shows "round_pos q \<le> pow2 (max (ilog2 q) (- 1022) + 1)"
proof -
  define e0 where "e0 = max (ilog2 q) (- 1022) - 52"
  define n where "n = round_half_even (q / pow2 e0)"
  have "n \<le> 2 ^ 53"
    unfolding n_def e0_def by (rule round_half_even_scaled_le [OF assms])
  then have "(of_int n :: rat) \<le> of_int (2 ^ 53)"
    by (simp only: of_int_le_iff)
  then have "of_int n * pow2 e0 \<le> pow2 53 * pow2 e0"
    unfolding pow2_53 by (rule mult_right_mono) (simp add: less_imp_le)
  also have "\<dots> = pow2 (max (ilog2 q) (- 1022) + 1)"
    by (simp add: pow2_add [symmetric] e0_def add.commute)
  finally show ?thesis
    by (simp add: round_pos_def Let_def n_def e0_def)
qed

text \<open>Checking a rounding: the exponent range \<open>L\<close> and the significand \<open>n\<close> are given.\<close>

lemma round64_nearest:
  assumes "0 < q" and "pow2 L \<le> q" and "q < pow2 (L + 1)" and "L \<le> 1022"
    and "e = max L (- 1022) - 52"
    and "\<bar>q / pow2 e - of_int n\<bar> < 1 / 2 \<or> (\<bar>q / pow2 e - of_int n\<bar> = 1 / 2 \<and> even n)"
  shows "round64 q = Num (of_int n * pow2 e)"
proof -
  have il: "ilog2 q = L"
    by (rule ilog2_unique [OF assms(1-3)])
  have "round_half_even (q / pow2 e) = n"
    using assms(6) round_half_even_near round_half_even_tie by blast
  then have rp: "round_pos q = of_int n * pow2 e"
    unfolding assms(5) by (rule round_pos_eq [OF assms(1-3)])
  have "round_pos q \<le> pow2 (max L (- 1022) + 1)"
    using round_pos_le [OF assms(1)] by (simp only: il)
  also have "\<dots> < pow2 1024"
    using assms(4) by (intro pow2_strict_mono) simp
  finally show ?thesis
    using assms(1) by (simp add: round64_def rp [symmetric])
qed

lemma representable_small:
  assumes "q = of_int m * pow2 e" and "\<bar>m\<bar> < 2 ^ 53" and "- 1074 \<le> e" and "e \<le> 970"
  shows "representable q"
proof (rule representableI [OF assms(1-3)])
  have "\<bar>q\<bar> = of_int \<bar>m\<bar> * pow2 e"
    by (simp add: assms(1) abs_mult)
  also have "\<dots> \<le> of_int (2 ^ 53) * pow2 e"
    using assms(2) by (intro mult_right_mono) (simp_all only: of_int_le_iff less_imp_le pow2_pos)
  also have "\<dots> = pow2 (53 + e)"
    by (simp only: pow2_53 pow2_add)
  also have "\<dots> < pow2 1024"
    using assms(4) by (intro pow2_strict_mono) simp
  finally show "\<bar>q\<bar> < pow2 1024" .
qed

lemma representable_int: "\<bar>m\<bar> < 2 ^ 53 \<Longrightarrow> representable (of_int m)"
  by (rule representable_small [of _ m 0]) simp_all

section \<open>The loops in closed form\<close>

lemma night_loop_closed:
  "i \<le> n \<Longrightarrow> night_loop people ppn person n i (pn, tot) =
     (pn @ map (night_cost people ppn person) [i..<n],
      night_total people ppn person tot [i..<n])"
proof (induction "n - i" arbitrary: i pn tot)
  case 0
  then have "i = n" by simp
  then show ?case
    by (simp add: night_loop.simps night_total_def)
next
  case (Suc d)
  then have less: "i < n" and d: "d = n - Suc i" and le: "Suc i \<le> n"
    by simp_all
  have up: "[i..<n] = i # [Suc i..<n]"
    using less by (simp add: upt_conv_Cons)
  note step = Suc.hyps(1) [OF d le]
  show ?case
    using less
    by (subst night_loop.simps)
      (simp add: step up night_cost_def night_total_def Let_def del: upt_Suc)
qed

lemma person_loop_closed:
  "person_loop people ppn n ps costs = costs @ map (cost_of people ppn n) ps"
  by (induction ps arbitrary: costs) (simp_all add: night_loop_closed cost_of_def)

lemma calculateCosts_closed:
  "n \<noteq> 0 \<Longrightarrow> \<not> js_eq totalPrice (Num 0) \<Longrightarrow> people \<noteq> [] \<Longrightarrow>
   calculateCosts people totalPrice n =
     map (cost_of people (fdiv totalPrice (of_count n)) n) people"
  by (simp add: calculateCosts_def person_loop_closed)

lemma stays_peopleThisNight:
  "person \<in> set people \<Longrightarrow> stays person i \<Longrightarrow> 0 < peopleThisNight people i"
  by (auto simp: peopleThisNight_def filter_empty_conv)

lemma night_cost_member:
  "person \<in> set people \<Longrightarrow>
   night_cost people ppn person i =
     (if stays person i then fdiv ppn (of_count (peopleThisNight people i)) else Num 0)"
  using stays_peopleThisNight [of person people i]
  by (simp add: night_cost_def costThisNight_def Let_def)

lemma not_js_eq_zero: "a \<noteq> 0 \<Longrightarrow> \<not> js_eq (Num a) (Num 0)"
  by (simp add: js_eq_def is_zero_def)

section \<open>Per-night shares\<close>

text \<open>
  C1. For a night count \<open>n \<noteq> 0\<close>, a total price that is not zero (negative prices,
  infinities and NaN included) and a non-empty roster, \<open>calculateCosts\<close> returns one
  record per person, in roster order; each record has \<open>n\<close> per-night entries, and the
  entry of person \<open>k\<close> for night \<open>i\<close> is \<open>(totalPrice / n)\<close> divided by the number of
  people of the whole roster present at night \<open>i\<close> when the person is flagged present
  at \<open>i\<close>, and \<open>0\<close> when the flag is false or missing.
\<close>

theorem calculateCosts_per_night:
  assumes "n \<noteq> 0" and "\<not> js_eq totalPrice (Num 0)" and "people \<noteq> []"
  shows "map personId (calculateCosts people totalPrice n) = map id_p people \<and>
    (\<forall>k<length people.
       length (perNight (calculateCosts people totalPrice n ! k)) = n \<and>
       (\<forall>i<n. perNight (calculateCosts people totalPrice n ! k) ! i =
          (if stays (people ! k) i
           then fdiv (fdiv totalPrice (of_count n)) (of_count (peopleThisNight people i))
           else Num 0)))"
proof -
  let ?ppn = "fdiv totalPrice (of_count n)"
  have cs: "calculateCosts people totalPrice n = map (cost_of people ?ppn n) people"
    using assms by (rule calculateCosts_closed)
  have ids: "map personId (calculateCosts people totalPrice n) = map id_p people"
    by (simp add: cs cost_of_def)
  have nights: "length (perNight (calculateCosts people totalPrice n ! k)) = n \<and>
      (\<forall>i<n. perNight (calculateCosts people totalPrice n ! k) ! i =
          (if stays (people ! k) i
           then fdiv ?ppn (of_count (peopleThisNight people i)) else Num 0))"
    if k: "k < length people" for k
  proof -
    have mem: "people ! k \<in> set people"
      using k by simp
    have "perNight (calculateCosts people totalPrice n ! k) =
        map (night_cost people ?ppn (people ! k)) [0..<n]"
      using k by (simp add: cs cost_of_def)
    then show ?thesis
      by (simp add: night_cost_member [OF mem])
  qed
  from ids nights show ?thesis
    by blast
qed

theorem calculateCosts_per_night_witness:
  "map personId (calculateCosts
      [\<lparr>id_p = ''1'', name = ''Alice'', nights = [True, False]\<rparr>,
       \<lparr>id_p = ''2'', name = ''Bob'', nights = [True, True]\<rparr>] (Num (- 200)) 2) = [''1'', ''2''] \<and>
   perNight (calculateCosts
      [\<lparr>id_p = ''1'', name = ''Alice'', nights = [True, False]\<rparr>,
       \<lparr>id_p = ''2'', name = ''Bob'', nights = [True, True]\<rparr>] (Num (- 200)) 2 ! 0) =
     [fdiv (fdiv (Num (- 200)) (of_count 2)) (of_count 2), Num 0] \<and>
   perNight (calculateCosts
      [\<lparr>id_p = ''1'', name = ''Alice'', nights = [True, False]\<rparr>,
       \<lparr>id_p = ''2'', name = ''Bob'', nights = [True, True]\<rparr>] (Num (- 200)) 2 ! 1) =
     [fdiv (fdiv (Num (- 200)) (of_count 2)) (of_count 2),
      fdiv (fdiv (Num (- 200)) (of_count 2)) (of_count 1)]"
proof -
  let ?people = "[\<lparr>id_p = ''1'', name = ''Alice'', nights = [True, False]\<rparr>,
       \<lparr>id_p = ''2'', name = ''Bob'', nights = [True, True]\<rparr>]"
  let ?cs = "calculateCosts ?people (Num (- 200)) 2"
  have h1: "(2::nat) \<noteq> 0" by simp
  have h2: "\<not> js_eq (Num (- 200)) (Num 0)" by (simp add: not_js_eq_zero)
  have h3: "?people \<noteq> []" by simp
  note t = calculateCosts_per_night [OF h1 h2 h3]
  have ids: "map personId ?cs = [''1'', ''2'']"
    using t by simp
  have k0: "length (perNight (?cs ! 0)) = 2 \<and>
       (\<forall>i<2. perNight (?cs ! 0) ! i =
          (if stays (?people ! 0) i
           then fdiv (fdiv (Num (- 200)) (of_count 2)) (of_count (peopleThisNight ?people i))
           else Num 0))"
    using t by simp
  have k1: "length (perNight (?cs ! 1)) = 2 \<and>
       (\<forall>i<2. perNight (?cs ! 1) ! i =
          (if stays (?people ! 1) i
           then fdiv (fdiv (Num (- 200)) (of_count 2)) (of_count (peopleThisNight ?people i))
           else Num 0))"
    using t by simp
  have c0: "peopleThisNight ?people 0 = 2" and c1: "peopleThisNight ?people 1 = 1"
    by (simp_all add: peopleThisNight_def stays_def)
  have e00: "perNight (?cs ! 0) ! 0 = fdiv (fdiv (Num (- 200)) (of_count 2)) (of_count 2)"
    using k0 [THEN conjunct2, rule_format, of 0] c0 by (simp add: stays_def)
  have e01: "perNight (?cs ! 0) ! 1 = Num 0"
    using k0 [THEN conjunct2, rule_format, of 1] by (simp add: stays_def)
  have e10: "perNight (?cs ! 1) ! 0 = fdiv (fdiv (Num (- 200)) (of_count 2)) (of_count 2)"
    using k1 [THEN conjunct2, rule_format, of 0] c0 by (simp add: stays_def)
  have e11: "perNight (?cs ! 1) ! 1 = fdiv (fdiv (Num (- 200)) (of_count 2)) (of_count 1)"
    using k1 [THEN conjunct2, rule_format, of 1] c1 by (simp add: stays_def)
  have two: "xs = [xs ! 0, xs ! 1]" if "length xs = 2" for xs :: "number list"
  proof -
    from that obtain a b where "xs = [a, b]"
      by (cases xs; cases "tl xs") auto
    then show ?thesis by simp
  qed
  have p0: "perNight (?cs ! 0) = [perNight (?cs ! 0) ! 0, perNight (?cs ! 0) ! 1]"
    by (rule two) (rule k0 [THEN conjunct1])
  have p1: "perNight (?cs ! 1) = [perNight (?cs ! 1) ! 0, perNight (?cs ! 1) ! 1]"
    by (rule two) (rule k1 [THEN conjunct1])
  show ?thesis
    using ids p0 p1 by (simp only: e00 e01 e10 e11)
qed

section \<open>Degenerate inputs\<close>

text \<open>
  C4. When the night count is 0, or the total price is zero (either zero), or the roster
  is empty, \<open>calculateCosts\<close> returns the empty sequence: no records at all.
\<close>

theorem calculateCosts_empty:
  "n = 0 \<or> js_eq totalPrice (Num 0) \<or> people = [] \<Longrightarrow> calculateCosts people totalPrice n = []"
  by (auto simp: calculateCosts_def)

theorem calculateCosts_empty_witness:
  "calculateCosts [\<lparr>id_p = ''1'', name = ''Alice'', nights = []\<rparr>] (Num 100) 0 = [] \<and>
   calculateCosts [\<lparr>id_p = ''1'', name = ''Alice'', nights = [True]\<rparr>] (Num 0) 1 = [] \<and>
   calculateCosts [\<lparr>id_p = ''1'', name = ''Alice'', nights = [True]\<rparr>] NegZero 1 = [] \<and>
   calculateCosts [] (Num 100) 2 = []"
proof -
  have z: "js_eq (Num 0) (Num 0)" "js_eq NegZero (Num 0)"
    by (simp_all add: js_eq_def is_zero_def)
  show ?thesis
    using calculateCosts_empty [of 0 "Num 100" "[\<lparr>id_p = ''1'', name = ''Alice'', nights = []\<rparr>]"]
      calculateCosts_empty [of 1 "Num 0" "[\<lparr>id_p = ''1'', name = ''Alice'', nights = [True]\<rparr>]"]
      calculateCosts_empty [of 1 NegZero "[\<lparr>id_p = ''1'', name = ''Alice'', nights = [True]\<rparr>]"]
      calculateCosts_empty [of 2 "Num 100" "[]"] z
    by simp
qed

section \<open>Attendance sequences shorter than the stay\<close>

text \<open>
  C9. \<open>calculateCosts\<close> is a total function (both loops terminate, and reading
  \<^verbatim>\<open>person.nights[i]\<close> past the end of the array is the value \<^verbatim>\<open>undefined\<close>, not
  an error). Outside the degenerate inputs it returns a record for every person, every
  record has exactly \<open>n\<close> per-night entries, and a night index at or beyond the length
  of a person's attendance sequence counts as absent: the entry is \<open>0\<close>.
\<close>

theorem calculateCosts_short_attendance:
  assumes "n \<noteq> 0" and "\<not> js_eq totalPrice (Num 0)" and "people \<noteq> []"
  shows "length (calculateCosts people totalPrice n) = length people \<and>
    (\<forall>k<length people.
       length (perNight (calculateCosts people totalPrice n ! k)) = n \<and>
       (\<forall>i<n. length (nights (people ! k)) \<le> i \<longrightarrow>
          perNight (calculateCosts people totalPrice n ! k) ! i = Num 0))"
proof -
  have cs: "calculateCosts people totalPrice n =
      map (cost_of people (fdiv totalPrice (of_count n)) n) people"
    using assms by (rule calculateCosts_closed)
  show ?thesis
    by (simp add: cs cost_of_def night_cost_def stays_def)
qed

theorem calculateCosts_short_attendance_witness:
  "length (calculateCosts [\<lparr>id_p = ''1'', name = ''Alice'', nights = [True]\<rparr>] (Num 300) 3) = 1 \<and>
   length (perNight (calculateCosts [\<lparr>id_p = ''1'', name = ''Alice'', nights = [True]\<rparr>] (Num 300) 3 ! 0)) = 3 \<and>
   perNight (calculateCosts [\<lparr>id_p = ''1'', name = ''Alice'', nights = [True]\<rparr>] (Num 300) 3 ! 0) ! 1 = Num 0 \<and>
   perNight (calculateCosts [\<lparr>id_p = ''1'', name = ''Alice'', nights = [True]\<rparr>] (Num 300) 3 ! 0) ! 2 = Num 0"
proof -
  have h1: "(3::nat) \<noteq> 0" by simp
  have h2: "\<not> js_eq (Num 300) (Num 0)" by (simp add: not_js_eq_zero)
  have h3: "[\<lparr>id_p = ''1'', name = ''Alice'', nights = [True]\<rparr>] \<noteq> []" by simp
  show ?thesis
    using calculateCosts_short_attendance [OF h1 h2 h3] by simp
qed

section \<open>Totals\<close>

lemma valid_costThisNight [simp]: "valid (costThisNight people ppn i)"
  by (simp add: costThisNight_def Let_def)

lemma valid_night_cost [simp]: "valid (night_cost people ppn person i)"
  by (simp add: night_cost_def)

text \<open>
  The loop adds a share to \<^verbatim>\<open>total\<close> only on the nights the person stays; adding the
  \<open>0\<close> entries of the other nights as well changes nothing, because the running total
  is a value of the format other than the negative zero.
\<close>

lemma night_total_foldl:
  "valid tot \<Longrightarrow> tot \<noteq> NegZero \<Longrightarrow>
   night_total people ppn person tot js = foldl fadd tot (map (night_cost people ppn person) js)"
proof (induction js arbitrary: tot)
  case Nil
  then show ?case by (simp add: night_total_def)
next
  case (Cons j js)
  show ?case
  proof (cases "stays person j")
    case True
    let ?c = "costThisNight people ppn j"
    have v: "valid (fadd tot ?c)" and nz: "fadd tot ?c \<noteq> NegZero"
      using Cons.prems by (simp_all add: valid_fadd fadd_not_NegZero)
    have "night_total people ppn person tot (j # js) = night_total people ppn person (fadd tot ?c) js"
      using True by (simp add: night_total_def)
    also have "\<dots> = foldl fadd (fadd tot ?c) (map (night_cost people ppn person) js)"
      by (rule Cons.IH [OF v nz])
    finally show ?thesis
      using True by (simp add: night_cost_def [of people ppn person j])
  next
    case False
    have "night_total people ppn person tot (j # js) = night_total people ppn person tot js"
      using False by (simp add: night_total_def)
    also have "\<dots> = foldl fadd tot (map (night_cost people ppn person) js)"
      by (rule Cons.IH [OF Cons.prems])
    finally show ?thesis
      using False Cons.prems by (simp add: night_cost_def [of people ppn person j] fadd_zero_right)
  qed
qed

lemma night_total_absent:
  "\<forall>j\<in>set js. \<not> stays person j \<Longrightarrow> night_total people ppn person tot js = tot"
  by (induction js) (simp_all add: night_total_def)

text \<open>
  C6. For a night count \<open>n \<noteq> 0\<close> and a price that is not zero, the total in the record
  of every person of the roster is the sum of the per-night costs of that record over
  all \<open>n\<close> nights (added in night order, as the loop does); a person absent on every
  night has all per-night costs \<open>0\<close> and total \<open>0\<close>, whatever the others do.
\<close>

theorem calculateCosts_total:
  assumes "n \<noteq> 0" and "\<not> js_eq totalPrice (Num 0)" and "k < length people"
  shows "total_c (calculateCosts people totalPrice n ! k) =
           sum_numbers (perNight (calculateCosts people totalPrice n ! k)) \<and>
         ((\<forall>i<n. \<not> stays (people ! k) i) \<longrightarrow>
            perNight (calculateCosts people totalPrice n ! k) = replicate n (Num 0) \<and>
            total_c (calculateCosts people totalPrice n ! k) = Num 0)"
proof -
  let ?ppn = "fdiv totalPrice (of_count n)"
  from assms(3) have ne: "people \<noteq> []" by auto
  have cs: "calculateCosts people totalPrice n ! k = cost_of people ?ppn n (people ! k)"
    using assms(3) by (simp add: calculateCosts_closed [OF assms(1,2) ne])
  have sum: "total_c (cost_of people ?ppn n (people ! k)) =
      sum_numbers (perNight (cost_of people ?ppn n (people ! k)))"
    by (simp add: cost_of_def sum_numbers_def night_total_foldl)
  have absent: "perNight (cost_of people ?ppn n (people ! k)) = replicate n (Num 0) \<and>
      total_c (cost_of people ?ppn n (people ! k)) = Num 0"
    if "\<forall>i<n. \<not> stays (people ! k) i"
  proof -
    have "map (night_cost people ?ppn (people ! k)) [0..<n] = map (\<lambda>i. Num 0) [0..<n]"
      using that by (intro map_cong) (simp_all add: night_cost_def)
    also have "\<dots> = replicate n (Num 0)"
      by (simp add: map_replicate_const)
    finally show ?thesis
      using that by (simp add: cost_of_def night_total_absent)
  qed
  show ?thesis
    unfolding cs using sum absent by blast
qed

theorem calculateCosts_total_witness:
  "total_c (calculateCosts
      [\<lparr>id_p = ''1'', name = ''Alice'', nights = [False, False]\<rparr>,
       \<lparr>id_p = ''2'', name = ''Bob'', nights = [True, True]\<rparr>] (Num 200) 2 ! 0) = Num 0 \<and>
   perNight (calculateCosts
      [\<lparr>id_p = ''1'', name = ''Alice'', nights = [False, False]\<rparr>,
       \<lparr>id_p = ''2'', name = ''Bob'', nights = [True, True]\<rparr>] (Num 200) 2 ! 0) = [Num 0, Num 0] \<and>
   total_c (calculateCosts
      [\<lparr>id_p = ''1'', name = ''Alice'', nights = [False, False]\<rparr>,
       \<lparr>id_p = ''2'', name = ''Bob'', nights = [True, True]\<rparr>] (Num 200) 2 ! 1) =
   sum_numbers (perNight (calculateCosts
      [\<lparr>id_p = ''1'', name = ''Alice'', nights = [False, False]\<rparr>,
       \<lparr>id_p = ''2'', name = ''Bob'', nights = [True, True]\<rparr>] (Num 200) 2 ! 1))"
proof -
  let ?people = "[\<lparr>id_p = ''1'', name = ''Alice'', nights = [False, False]\<rparr>,
       \<lparr>id_p = ''2'', name = ''Bob'', nights = [True, True]\<rparr>]"
  have h1: "(2::nat) \<noteq> 0" by simp
  have h2: "\<not> js_eq (Num 200) (Num 0)" by (simp add: not_js_eq_zero)
  have k0: "0 < length ?people" and k1: "1 < length ?people" by simp_all
  have absent: "\<forall>i<2. \<not> stays (?people ! 0) i"
    by (auto simp: stays_def less_2_cases_iff)
  have two: "replicate 2 (Num 0) = [Num 0, Num 0]"
    by (simp add: numeral_2_eq_2)
  note t0 = calculateCosts_total [OF h1 h2 k0, THEN conjunct2, THEN mp, OF absent]
  have a: "total_c (calculateCosts ?people (Num 200) 2 ! 0) = Num 0"
    by (rule t0 [THEN conjunct2])
  have b: "perNight (calculateCosts ?people (Num 200) 2 ! 0) = [Num 0, Num 0]"
    using t0 [THEN conjunct1] by (simp only: two)
  have c: "total_c (calculateCosts ?people (Num 200) 2 ! 1) =
      sum_numbers (perNight (calculateCosts ?people (Num 200) 2 ! 1))"
    by (rule calculateCosts_total [OF h1 h2 k1, THEN conjunct1])
  from a b c show ?thesis
    by (intro conjI)
qed

section \<open>A single guest\<close>

lemma of_count_simps:
  "of_count 1 = Num 1" "of_count (numeral k) = Num (numeral k)" "of_count (Suc 0) = Num 1"
  by (simp_all add: of_count_def)

lemma representable_numeral: "(numeral k :: int) < 2 ^ 53 \<Longrightarrow> representable (numeral k)"
  using representable_int [of "numeral k"] by simp

lemma fadd_exact: "representable (a + b) \<Longrightarrow> fadd (Num a) (Num b) = Num (a + b)"
  by (simp add: fadd_def round64_exact)

lemma fdiv_exact:
  "a \<noteq> 0 \<Longrightarrow> b \<noteq> 0 \<Longrightarrow> representable (a / b) \<Longrightarrow> fdiv (Num a) (Num b) = Num (a / b)"
  by (simp add: fdiv_def round64_exact)

text \<open>
  With one person in the roster who stays every night, each night's share is
  \<open>(totalPrice / n) / 1\<close>, which is \<open>totalPrice / n\<close>.
\<close>

lemma cost_of_single:
  assumes "\<forall>i<n. stays p i"
  shows "cost_of [p] (fdiv totalPrice (of_count n)) n p =
    \<lparr>personId = id_p p,
     perNight = replicate n (fdiv totalPrice (of_count n)),
     total_c = sum_numbers (replicate n (fdiv totalPrice (of_count n)))\<rparr>"
proof -
  let ?ppn = "fdiv totalPrice (of_count n)"
  have one: "night_cost [p] ?ppn p i = ?ppn" if "i < n" for i
    using that assms
    by (simp add: night_cost_def costThisNight_def peopleThisNight_def of_count_simps fdiv_one)
  have "map (night_cost [p] ?ppn p) [0..<n] = map (\<lambda>i. ?ppn) [0..<n]"
    by (intro map_cong) (simp_all add: one)
  then have pn: "map (night_cost [p] ?ppn p) [0..<n] = replicate n ?ppn"
    by (simp add: map_replicate_const)
  show ?thesis
    by (simp add: cost_of_def night_total_foldl pn sum_numbers_def)
qed

text \<open>
  One sixth in binary64, \<open>0.16666666666666666\<close>, and what adding it six times from
  \<open>0\<close> gives, \<open>0.9999999999999999\<close>. Each rounding is checked against its
  definition: the binade \<open>L\<close> and the significand are given to \<open>round64_nearest\<close>.
\<close>

lemma sixth: "fdiv (Num 1) (Num 6) = Num (6004799503160661 / 36028797018963968)"
proof -
  have "round64 (1 / 6) = Num (of_int 6004799503160661 * pow2 (- 55))"
    by (rule round64_nearest [where L = "- 3"]) (simp_all add: pow2_def)
  then show ?thesis
    by (simp add: fdiv_def pow2_def)
qed

lemma sixth_sum_1:
  "fadd (Num 0) (Num (6004799503160661 / 36028797018963968)) = Num (6004799503160661 / 36028797018963968)"
proof -
  have "round64 (6004799503160661 / 36028797018963968) = Num (of_int 6004799503160661 * pow2 (- 55))"
    by (rule round64_nearest [where L = "- 3"]) (simp_all add: pow2_def)
  then show ?thesis
    by (simp add: fadd_def pow2_def)
qed

lemma sixth_sum_2:
  "fadd (Num (6004799503160661 / 36028797018963968)) (Num (6004799503160661 / 36028797018963968))
     = Num (6004799503160661 / 18014398509481984)"
proof -
  have "round64 (6004799503160661 / 18014398509481984) = Num (of_int 6004799503160661 * pow2 (- 54))"
    by (rule round64_nearest [where L = "- 2"]) (simp_all add: pow2_def)
  then show ?thesis
    by (simp add: fadd_def pow2_def)
qed

lemma sixth_sum_3:
  "fadd (Num (6004799503160661 / 18014398509481984)) (Num (6004799503160661 / 36028797018963968))
     = Num (1 / 2)"
proof -
  have "round64 (18014398509481983 / 36028797018963968) = Num (of_int 9007199254740992 * pow2 (- 54))"
    by (rule round64_nearest [where L = "- 2"]) (simp_all add: pow2_def)
  then show ?thesis
    by (simp add: fadd_def pow2_def)
qed

lemma sixth_sum_4:
  "fadd (Num (1 / 2)) (Num (6004799503160661 / 36028797018963968))
     = Num (6004799503160661 / 9007199254740992)"
proof -
  have "round64 (24019198012642645 / 36028797018963968) = Num (of_int 6004799503160661 * pow2 (- 53))"
    by (rule round64_nearest [where L = "- 1"]) (simp_all add: pow2_def)
  then show ?thesis
    by (simp add: fadd_def pow2_def)
qed

lemma sixth_sum_5:
  "fadd (Num (6004799503160661 / 9007199254740992)) (Num (6004799503160661 / 36028797018963968))
     = Num (3752999689475413 / 4503599627370496)"
proof -
  have "round64 (30023997515803305 / 36028797018963968) = Num (of_int 7505999378950826 * pow2 (- 53))"
    by (rule round64_nearest [where L = "- 1"]) (simp_all add: pow2_def)
  then show ?thesis
    by (simp add: fadd_def pow2_def)
qed

lemma sixth_sum_6:
  "fadd (Num (3752999689475413 / 4503599627370496)) (Num (6004799503160661 / 36028797018963968))
     = Num (9007199254740991 / 9007199254740992)"
proof -
  have "round64 (36028797018963965 / 36028797018963968) = Num (of_int 9007199254740991 * pow2 (- 53))"
    by (rule round64_nearest [where L = "- 1"]) (simp_all add: pow2_def)
  then show ?thesis
    by (simp add: fadd_def pow2_def)
qed

lemma six_sixths:
  "sum_numbers (replicate 6 (Num (6004799503160661 / 36028797018963968)))
     = Num (9007199254740991 / 9007199254740992)"
proof -
  have "replicate 6 x = [x, x, x, x, x, x]" for x :: number
    by (simp add: eval_nat_numeral)
  then show ?thesis
    by (simp add: sum_numbers_def sixth_sum_1 sixth_sum_2 sixth_sum_3 sixth_sum_4 sixth_sum_5 sixth_sum_6)
qed

text \<open>
  C7, as stated, fails: one person present on each of 6 nights, total price 1. Each
  night costs \<open>1 / 6\<close> rounded, and the six additions give \<open>0.9999999999999999\<close>, not
  the price.
\<close>

theorem single_guest_total_counterexample:
  "total_c (calculateCosts
      [\<lparr>id_p = ''1'', name = ''Alice'', nights = [True, True, True, True, True, True]\<rparr>] (Num 1) 6 ! 0)
     = Num (9007199254740991 / 9007199254740992) \<and>
   total_c (calculateCosts
      [\<lparr>id_p = ''1'', name = ''Alice'', nights = [True, True, True, True, True, True]\<rparr>] (Num 1) 6 ! 0)
     \<noteq> Num 1"
proof -
  let ?p = "\<lparr>id_p = ''1'', name = ''Alice'', nights = [True, True, True, True, True, True]\<rparr>"
  have present: "\<forall>i<6. stays ?p i"
    by (simp add: stays_def nth_Cons split: nat.split)
  have "calculateCosts [?p] (Num 1) 6 = [cost_of [?p] (fdiv (Num 1) (of_count 6)) 6 ?p]"
    by (simp add: calculateCosts_closed not_js_eq_zero)
  then have "total_c (calculateCosts [?p] (Num 1) 6 ! 0) =
      sum_numbers (replicate 6 (fdiv (Num 1) (of_count 6)))"
    by (simp add: cost_of_single [OF present])
  then have "total_c (calculateCosts [?p] (Num 1) 6 ! 0) = Num (9007199254740991 / 9007199254740992)"
    by (simp add: of_count_simps sixth six_sixths)
  then show ?thesis
    by simp
qed

lemma foldl_fadd_exact:
  "exact_from a xs \<Longrightarrow> foldl fadd (Num a) (map Num xs) = Num (a + sum_list xs)"
proof (induction xs arbitrary: a)
  case Nil
  then show ?case by simp
next
  case (Cons x xs)
  then have r: "representable (a + x)" and rest: "exact_from (a + x) xs"
    by simp_all
  have "foldl fadd (Num a) (map Num (x # xs)) = foldl fadd (Num (a + x)) (map Num xs)"
    by (simp add: fadd_exact [OF r])
  also have "\<dots> = Num (a + x + sum_list xs)"
    by (rule Cons.IH [OF rest])
  finally show ?case
    by (simp add: add.assoc)
qed

lemma sum_numbers_exact: "exact_sums xs \<Longrightarrow> sum_numbers (map Num xs) = Num (sum_list xs)"
  using foldl_fadd_exact [of 0 xs] by (simp add: sum_numbers_def exact_sums_def)

lemma exact_from_first:
  assumes "exact_from 0 xs" and "c \<in> set xs" and "\<forall>x\<in>set xs. x = 0 \<or> x = c"
  shows "representable c"
  using assms
proof (induction xs)
  case Nil
  then show ?case by simp
next
  case (Cons x xs)
  show ?case
  proof (cases "x = c")
    case True
    with Cons.prems(1) show ?thesis by simp
  next
    case False
    with Cons.prems(3) have x: "x = 0" by simp
    with Cons.prems False have "exact_from 0 xs" "c \<in> set xs" "\<forall>x\<in>set xs. x = 0 \<or> x = c"
      by simp_all
    then show ?thesis by (rule Cons.IH)
  qed
qed

lemma js_eq_Num_0: "js_eq (Num a) (Num 0) = (a = 0)"
  by (simp add: js_eq_def is_zero_def)

lemma fdiv_of_count_exact:
  assumes "a \<noteq> 0" and "k \<noteq> 0" and "representable (a / of_nat k)"
  shows "fdiv (Num a) (of_count k) = Num (a / of_nat k)"
  using assms by (simp add: of_count_def fdiv_exact)

text \<open>
  C7, amended. For a roster of a single person marked present every night, a price
  that is not zero and \<open>n \<noteq> 0\<close> nights, the person's per-night cost is \<open>totalPrice / n\<close>
  (the quotient as a number) for each of the \<open>n\<close> nights, and the total is the sum of
  these \<open>n\<close> per-night costs as the loop adds them. The total is the full price
  whenever the price is finite and the multiples \<open>1 * (price / n)\<close>, \<open>2 * (price / n)\<close>,
  up to \<open>n * (price / n)\<close> are all values of the format, so that neither the division
  nor an addition rounds: for price 200 and 2 nights the per-night costs are
  \<open>[100, 100]\<close> and the total is 200 (the witness).
\<close>

theorem single_guest_costs:
  assumes "n \<noteq> 0" and "\<not> js_eq totalPrice (Num 0)" and "\<forall>i<n. stays p i"
  shows "calculateCosts [p] totalPrice n =
      [\<lparr>personId = id_p p,
        perNight = replicate n (fdiv totalPrice (of_count n)),
        total_c = sum_numbers (replicate n (fdiv totalPrice (of_count n)))\<rparr>] \<and>
    (\<forall>pr. totalPrice = Num pr \<and> exact_sums (replicate n (pr / of_nat n)) \<longrightarrow>
       calculateCosts [p] totalPrice n =
         [\<lparr>personId = id_p p, perNight = replicate n (Num (pr / of_nat n)), total_c = Num pr\<rparr>])"
proof -
  have "calculateCosts [p] totalPrice n = [cost_of [p] (fdiv totalPrice (of_count n)) n p]"
    using assms(1,2) by (simp add: calculateCosts_closed)
  then have general: "calculateCosts [p] totalPrice n =
      [\<lparr>personId = id_p p,
        perNight = replicate n (fdiv totalPrice (of_count n)),
        total_c = sum_numbers (replicate n (fdiv totalPrice (of_count n)))\<rparr>]"
    by (simp only: cost_of_single [OF assms(3)])
  have exact: "calculateCosts [p] totalPrice n =
         [\<lparr>personId = id_p p, perNight = replicate n (Num (pr / of_nat n)), total_c = Num pr\<rparr>]"
    if pr: "totalPrice = Num pr" and ex: "exact_sums (replicate n (pr / of_nat n))" for pr
  proof -
    let ?c = "pr / of_nat n"
    from assms(2) pr have pr0: "pr \<noteq> 0"
      by (simp add: js_eq_Num_0)
    from assms(1) obtain m where n: "n = Suc m"
      by (cases n) simp_all
    have "representable (0 + ?c)"
      using ex by (simp add: exact_sums_def n)
    then have "representable ?c"
      by simp
    then have q: "fdiv totalPrice (of_count n) = Num ?c"
      unfolding pr by (intro fdiv_of_count_exact pr0 assms(1))
    have "sum_numbers (replicate n (Num ?c)) = sum_numbers (map Num (replicate n ?c))"
      by simp
    also have "\<dots> = Num (sum_list (replicate n ?c))"
      by (rule sum_numbers_exact [OF ex])
    also have "sum_list (replicate n ?c) = pr"
      using assms(1) by (simp add: sum_list_replicate)
    finally show ?thesis
      by (simp add: general q)
  qed
  from general exact show ?thesis
    by blast
qed

theorem single_guest_costs_witness:
  "calculateCosts [\<lparr>id_p = ''1'', name = ''Alice'', nights = [True, True]\<rparr>] (Num 200) 2 =
     [\<lparr>personId = ''1'', perNight = [Num 100, Num 100], total_c = Num 200\<rparr>]"
proof -
  let ?p = "\<lparr>id_p = ''1'', name = ''Alice'', nights = [True, True]\<rparr>"
  have h1: "(2::nat) \<noteq> 0" by simp
  have h2: "\<not> js_eq (Num 200) (Num 0)" by (simp add: not_js_eq_zero)
  have h3: "\<forall>i<2. stays ?p i"
    by (auto simp: stays_def less_2_cases_iff)
  have two: "replicate 2 x = [x, x]" for x :: 'a
    by (simp add: numeral_2_eq_2)
  have ex: "exact_sums (replicate 2 (200 / of_nat 2))"
    by (simp add: two exact_sums_def representable_numeral)
  from single_guest_costs [OF h1 h2 h3, THEN conjunct2, rule_format, of 200] ex
  show ?thesis
    by (simp add: two)
qed

section \<open>Conservation\<close>

lemma foldl_fadd_skip_zero:
  assumes "valid acc" and "acc \<noteq> NegZero" and "valid c"
  shows "foldl fadd acc (map (\<lambda>x. if P x then c else Num 0) xs) =
         foldl fadd acc (replicate (length (filter P xs)) c)"
  using assms(1,2)
proof (induction xs arbitrary: acc)
  case Nil
  then show ?case by simp
next
  case (Cons x xs)
  show ?case
  proof (cases "P x")
    case True
    have "valid (fadd acc c)" "fadd acc c \<noteq> NegZero"
      using Cons.prems assms(3) by (simp_all add: valid_fadd fadd_not_NegZero)
    from Cons.IH [OF this] True show ?thesis by simp
  next
    case False
    with Cons.IH [OF Cons.prems] Cons.prems show ?thesis
      by (simp add: fadd_zero_right)
  qed
qed

text \<open>
  The shares of one night over the roster: the same share at each of the \<open>k\<close> people
  present, \<open>0\<close> at the others.
\<close>

lemma night_column:
  assumes "n \<noteq> 0" and "\<not> js_eq totalPrice (Num 0)" and "people \<noteq> []" and "i < n"
  shows "sum_numbers (map (\<lambda>c. perNight c ! i) (calculateCosts people totalPrice n)) =
     sum_numbers (replicate (peopleThisNight people i)
        (fdiv (fdiv totalPrice (of_count n)) (of_count (peopleThisNight people i))))"
proof -
  let ?ppn = "fdiv totalPrice (of_count n)"
  let ?k = "peopleThisNight people i"
  have "map (\<lambda>c. perNight c ! i) (calculateCosts people totalPrice n) =
      map (\<lambda>p. night_cost people ?ppn p i) people"
    using assms(4) by (simp add: calculateCosts_closed [OF assms(1-3)] cost_of_def comp_def)
  also have "\<dots> = map (\<lambda>p. if stays p i then costThisNight people ?ppn i else Num 0) people"
    by (simp add: night_cost_def)
  finally have "sum_numbers (map (\<lambda>c. perNight c ! i) (calculateCosts people totalPrice n)) =
      sum_numbers (replicate ?k (costThisNight people ?ppn i))"
    by (simp add: sum_numbers_def foldl_fadd_skip_zero peopleThisNight_def)
  also have "replicate ?k (costThisNight people ?ppn i) = replicate ?k (fdiv ?ppn (of_count ?k))"
    by (cases "?k = 0") (simp_all add: costThisNight_def)
  finally show ?thesis .
qed

lemma fadd_zero_left: "valid x \<Longrightarrow> fadd (Num 0) x = (if x = NegZero then Num 0 else x)"
  by (cases x) (simp_all add: fadd_def round64_exact)

lemma representable_1 [simp]: "representable 1"
  using representable_int [of 1] by simp

text \<open>
  C10, as stated, fails: six people present on the one night of a stay of price 1. Each
  share is \<open>1 / 6\<close> rounded; the six shares add up to \<open>0.9999999999999999\<close>, not to the
  nightly price \<open>1 / 1 = 1\<close>, although the night has attendees.
\<close>

theorem night_sum_counterexample:
  "sum_numbers (map (\<lambda>c. perNight c ! 0) (calculateCosts
      [\<lparr>id_p = ''1'', name = ''A'', nights = [True]\<rparr>, \<lparr>id_p = ''2'', name = ''B'', nights = [True]\<rparr>,
       \<lparr>id_p = ''3'', name = ''C'', nights = [True]\<rparr>, \<lparr>id_p = ''4'', name = ''D'', nights = [True]\<rparr>,
       \<lparr>id_p = ''5'', name = ''E'', nights = [True]\<rparr>, \<lparr>id_p = ''6'', name = ''F'', nights = [True]\<rparr>]
      (Num 1) 1))
     = Num (9007199254740991 / 9007199254740992) \<and>
   0 < peopleThisNight
      [\<lparr>id_p = ''1'', name = ''A'', nights = [True]\<rparr>, \<lparr>id_p = ''2'', name = ''B'', nights = [True]\<rparr>,
       \<lparr>id_p = ''3'', name = ''C'', nights = [True]\<rparr>, \<lparr>id_p = ''4'', name = ''D'', nights = [True]\<rparr>,
       \<lparr>id_p = ''5'', name = ''E'', nights = [True]\<rparr>, \<lparr>id_p = ''6'', name = ''F'', nights = [True]\<rparr>] 0 \<and>
   fdiv (Num 1) (of_count 1) = Num 1 \<and>
   Num (9007199254740991 / 9007199254740992) \<noteq> Num 1"
proof -
  let ?people = "[\<lparr>id_p = ''1'', name = ''A'', nights = [True]\<rparr>, \<lparr>id_p = ''2'', name = ''B'', nights = [True]\<rparr>,
       \<lparr>id_p = ''3'', name = ''C'', nights = [True]\<rparr>, \<lparr>id_p = ''4'', name = ''D'', nights = [True]\<rparr>,
       \<lparr>id_p = ''5'', name = ''E'', nights = [True]\<rparr>, \<lparr>id_p = ''6'', name = ''F'', nights = [True]\<rparr>]"
  have k: "peopleThisNight ?people 0 = 6"
    by (simp add: peopleThisNight_def stays_def)
  have one: "fdiv (Num 1) (of_count 1) = Num 1"
    by (simp add: of_count_simps fdiv_one)
  have "sum_numbers (map (\<lambda>c. perNight c ! 0) (calculateCosts ?people (Num 1) 1)) =
      sum_numbers (replicate 6 (fdiv (fdiv (Num 1) (of_count 1)) (of_count 6)))"
    using night_column [of 1 "Num 1" ?people 0] by (simp only: k) (simp add: not_js_eq_zero)
  then have "sum_numbers (map (\<lambda>c. perNight c ! 0) (calculateCosts ?people (Num 1) 1)) =
      Num (9007199254740991 / 9007199254740992)"
    by (simp add: of_count_simps fdiv_one sixth six_sixths)
  then show ?thesis
    using k one by simp
qed

lemma sum_list_indicator:
  "sum_list (map (\<lambda>x. if P x then c else 0) xs) = of_nat (length (filter P xs)) * (c :: rat)"
  by (induction xs) (simp_all add: algebra_simps)

lemma sum_list_swap:
  "sum_list (map (\<lambda>x. sum_list (map (f x) ys)) xs) =
   sum_list (map (\<lambda>y. sum_list (map (\<lambda>x. f x y) xs)) ys)"
  for f :: "'a \<Rightarrow> 'b \<Rightarrow> rat"
proof (induction xs)
  case Nil
  then show ?case by simp
next
  case (Cons x xs)
  then show ?case
    by (simp add: sum_list_addf)
qed

text \<open>
  Without rounding, the shares of night \<open>i\<close> over the roster add up to the nightly
  price if somebody is present, and to 0 otherwise.
\<close>

lemma column_share_sum:
  assumes "n \<noteq> 0"
  shows "sum_list (map (\<lambda>p. share people pr n p i) people) =
    (if 0 < peopleThisNight people i then pr / of_nat n else 0)"
proof -
  let ?k = "peopleThisNight people i"
  have "sum_list (map (\<lambda>p. share people pr n p i) people) =
      sum_list (map (\<lambda>p. if stays p i then pr / of_nat n / of_nat ?k else 0) people)"
    by (simp add: share_def)
  also have "\<dots> = of_nat ?k * (pr / of_nat n / of_nat ?k)"
    by (simp add: sum_list_indicator peopleThisNight_def)
  also have "\<dots> = (if 0 < ?k then pr / of_nat n else 0)"
    by simp
  finally show ?thesis .
qed

lemma total_share_sum:
  assumes "n \<noteq> 0"
  shows "sum_list (map (\<lambda>p. sum_list (map (share people pr n p) [0..<n])) people) =
    pr / of_nat n * of_nat (attended people n)"
proof -
  have "sum_list (map (\<lambda>p. sum_list (map (share people pr n p) [0..<n])) people) =
      sum_list (map (\<lambda>i. sum_list (map (\<lambda>p. share people pr n p i) people)) [0..<n])"
    by (rule sum_list_swap)
  also have "\<dots> = sum_list (map (\<lambda>i. if 0 < peopleThisNight people i then pr / of_nat n else 0) [0..<n])"
    by (simp add: column_share_sum [OF assms])
  also have "\<dots> = of_nat (attended people n) * (pr / of_nat n)"
    by (simp add: sum_list_indicator attended_def)
  finally show ?thesis
    by (simp add: mult.commute)
qed

text \<open>When nothing rounds, the numbers the code computes are the exact shares.\<close>

lemma exact_night_cost:
  assumes n: "n \<noteq> 0" and pr: "pr \<noteq> 0" and ex: "exact_allocation people pr n"
    and i: "i < n" and p: "p \<in> set people"
  shows "night_cost people (fdiv (Num pr) (of_count n)) p i = Num (share people pr n p i)"
proof (cases "stays p i")
  case False
  then show ?thesis
    by (simp add: night_cost_def share_def)
next
  case True
  let ?k = "peopleThisNight people i"
  let ?c = "pr / of_nat n / of_nat ?k"
  have k: "0 < ?k"
    by (rule stays_peopleThisNight [OF p True])
  have ppn: "fdiv (Num pr) (of_count n) = Num (pr / of_nat n)"
    using ex by (intro fdiv_of_count_exact pr n) (simp add: exact_allocation_def)
  have col: "exact_from 0 (map (\<lambda>q. share people pr n q i) people)"
    using ex i by (simp add: exact_allocation_def exact_sums_def)
  have mem: "?c \<in> set (map (\<lambda>q. share people pr n q i) people)"
    using p True by (auto simp: share_def image_iff intro!: bexI [of _ p])
  have only: "\<forall>x\<in>set (map (\<lambda>q. share people pr n q i) people). x = 0 \<or> x = ?c"
    by (auto simp: share_def)
  have rep: "representable ?c"
    by (rule exact_from_first [OF col mem only])
  have nz: "pr / of_nat n \<noteq> 0"
    using pr n by simp
  have "fdiv (Num (pr / of_nat n)) (of_count ?k) = Num ?c"
    using k rep by (intro fdiv_of_count_exact nz) simp_all
  with True k show ?thesis
    by (simp add: night_cost_def costThisNight_def share_def ppn)
qed

lemma exact_columns:
  assumes n: "n \<noteq> 0" and pr: "pr \<noteq> 0" and ne: "people \<noteq> []"
    and ex: "exact_allocation people pr n" and i: "i < n"
  shows "sum_numbers (map (\<lambda>c. perNight c ! i) (calculateCosts people (Num pr) n)) =
    (if 0 < peopleThisNight people i then Num (pr / of_nat n) else Num 0)"
proof -
  let ?ppn = "fdiv (Num pr) (of_count n)"
  have nz: "\<not> js_eq (Num pr) (Num 0)"
    using pr by (simp add: js_eq_Num_0)
  have "map (\<lambda>c. perNight c ! i) (calculateCosts people (Num pr) n) =
      map (\<lambda>p. night_cost people ?ppn p i) people"
    using i by (simp add: calculateCosts_closed [OF n nz ne] cost_of_def comp_def)
  also have "\<dots> = map (\<lambda>p. Num (share people pr n p i)) people"
    by (intro map_cong refl exact_night_cost [OF n pr ex i])
  also have "\<dots> = map Num (map (\<lambda>p. share people pr n p i) people)"
    by simp
  finally have "sum_numbers (map (\<lambda>c. perNight c ! i) (calculateCosts people (Num pr) n)) =
      sum_numbers (map Num (map (\<lambda>p. share people pr n p i) people))"
    by simp
  also have "\<dots> = Num (sum_list (map (\<lambda>p. share people pr n p i) people))"
    using ex i by (intro sum_numbers_exact) (simp add: exact_allocation_def)
  finally show ?thesis
    by (simp add: column_share_sum [OF n])
qed

lemma exact_totals:
  assumes n: "n \<noteq> 0" and pr: "pr \<noteq> 0" and ne: "people \<noteq> []"
    and ex: "exact_allocation people pr n"
  shows "sum_numbers (map total_c (calculateCosts people (Num pr) n)) =
    Num (pr / of_nat n * of_nat (attended people n))"
proof -
  let ?ppn = "fdiv (Num pr) (of_count n)"
  have nz: "\<not> js_eq (Num pr) (Num 0)"
    using pr by (simp add: js_eq_Num_0)
  have row: "total_c (cost_of people ?ppn n p) = Num (sum_list (map (share people pr n p) [0..<n]))"
    if p: "p \<in> set people" for p
  proof -
    have "total_c (cost_of people ?ppn n p) = sum_numbers (map (night_cost people ?ppn p) [0..<n])"
      by (simp add: cost_of_def night_total_foldl sum_numbers_def)
    also have "map (night_cost people ?ppn p) [0..<n] = map (\<lambda>i. Num (share people pr n p i)) [0..<n]"
      by (intro map_cong refl exact_night_cost [OF n pr ex _ p]) simp
    also have "\<dots> = map Num (map (share people pr n p) [0..<n])"
      by simp
    also have "sum_numbers \<dots> = Num (sum_list (map (share people pr n p) [0..<n]))"
      using ex p by (intro sum_numbers_exact) (simp add: exact_allocation_def)
    finally show ?thesis .
  qed
  have "map total_c (calculateCosts people (Num pr) n) =
      map (\<lambda>p. total_c (cost_of people ?ppn n p)) people"
    by (simp add: calculateCosts_closed [OF n nz ne] comp_def)
  also have "\<dots> = map (\<lambda>p. Num (sum_list (map (share people pr n p) [0..<n]))) people"
    by (intro map_cong refl row)
  also have "\<dots> = map Num (map (\<lambda>p. sum_list (map (share people pr n p) [0..<n])) people)"
    by simp
  finally have "sum_numbers (map total_c (calculateCosts people (Num pr) n)) =
      sum_numbers (map Num (map (\<lambda>p. sum_list (map (share people pr n p) [0..<n])) people))"
    by simp
  also have "\<dots> = Num (sum_list (map (\<lambda>p. sum_list (map (share people pr n p) [0..<n])) people))"
    using ex by (intro sum_numbers_exact) (simp add: exact_allocation_def)
  finally show ?thesis
    by (simp add: total_share_sum [OF n])
qed

lemma attended_le: "attended people n \<le> n"
  using length_filter_le [of "\<lambda>i. 0 < peopleThisNight people i" "[0..<n]"]
  by (simp add: attended_def)

lemma full_price_iff:
  fixes pr :: rat
  assumes "n \<noteq> 0" and "pr \<noteq> 0"
  shows "pr / of_nat n * of_nat a = pr \<longleftrightarrow> a = n"
proof -
  have "pr / of_nat n * of_nat a = pr \<longleftrightarrow> pr * of_nat a = pr * of_nat n"
    using assms(1) by (simp add: field_simps)
  also have "\<dots> \<longleftrightarrow> (of_nat a :: rat) = of_nat n"
    using assms(2) by simp
  also have "\<dots> \<longleftrightarrow> a = n"
    by simp
  finally show ?thesis .
qed

lemma filter_all_length: "length (filter P xs) = length xs \<longleftrightarrow> (\<forall>x\<in>set xs. P x)"
proof (induction xs)
  case Nil
  then show ?case by simp
next
  case (Cons x xs)
  have le: "length (filter P xs) \<le> length xs"
    by (rule length_filter_le)
  show ?case
  proof (cases "P x")
    case True
    with Cons show ?thesis by simp
  next
    case False
    from le have "length (filter P xs) \<noteq> Suc (length xs)"
      by arith
    with False show ?thesis by simp
  qed
qed

lemma attended_full: "attended people n = n \<longleftrightarrow> (\<forall>i<n. 0 < peopleThisNight people i)"
  using filter_all_length [of "\<lambda>i. 0 < peopleThisNight people i" "[0..<n]"]
  by (auto simp: attended_def)

lemma calculateCosts_no_people: "calculateCosts [] totalPrice n = []"
  by (simp add: calculateCosts_def)

lemma night_column_any:
  assumes "n \<noteq> 0" and "\<not> js_eq totalPrice (Num 0)" and "i < n"
  shows "sum_numbers (map (\<lambda>c. perNight c ! i) (calculateCosts people totalPrice n)) =
         sum_numbers (replicate (peopleThisNight people i)
           (fdiv (fdiv totalPrice (of_count n)) (of_count (peopleThisNight people i))))"
proof (cases "people = []")
  case True
  then show ?thesis
    by (simp add: calculateCosts_no_people peopleThisNight_def)
next
  case False
  then show ?thesis
    by (intro night_column assms)
qed

lemma exact_columns_any:
  assumes "n \<noteq> 0" and "pr \<noteq> 0" and "exact_allocation people pr n" and "i < n"
  shows "sum_numbers (map (\<lambda>c. perNight c ! i) (calculateCosts people (Num pr) n)) =
    (if 0 < peopleThisNight people i then Num (pr / of_nat n) else Num 0)"
proof (cases "people = []")
  case True
  then show ?thesis
    by (simp add: calculateCosts_no_people peopleThisNight_def sum_numbers_def)
next
  case False
  then show ?thesis
    by (intro exact_columns assms)
qed

lemma exact_totals_any:
  assumes "n \<noteq> 0" and "pr \<noteq> 0" and "exact_allocation people pr n"
  shows "sum_numbers (map total_c (calculateCosts people (Num pr) n)) =
    Num (pr / of_nat n * of_nat (attended people n))"
proof (cases "people = []")
  case True
  then show ?thesis
    by (simp add: calculateCosts_no_people peopleThisNight_def attended_def sum_numbers_def)
next
  case False
  then show ?thesis
    by (intro exact_totals assms)
qed

text \<open>
  C10, amended. For every roster, every price that is not zero and every \<open>n \<noteq> 0\<close>: the
  per-night costs of night \<open>i < n\<close> over all persons add up (in roster order, as
  numbers) to the sum of \<open>k\<close> copies of the share \<open>(totalPrice / n) / k\<close>, where \<open>k\<close> is
  the number of people present at night \<open>i\<close>; this is 0 when nobody is present, and the
  nightly price \<open>totalPrice / n\<close> itself when exactly one person is (the positive zero
  if the nightly price is the negative zero). Whenever the price is finite and no
  operation of the allocation rounds (\<open>exact_allocation\<close>: the nightly price, and every
  partial sum of the exact shares of a night over the roster, of the exact shares of a
  person over the nights, and of the persons' exact totals over the roster, is a value
  of the format), the sum for night \<open>i\<close> is the nightly price \<open>totalPrice / n\<close> when at
  least one person is present at night \<open>i\<close> and 0 otherwise, the sum of all persons'
  totals is the nightly price times the number of nights with at least one person
  present, and it is the full price exactly when every night has at least one attendee.
\<close>

theorem night_sum_shares:
  assumes "n \<noteq> 0" and "\<not> js_eq totalPrice (Num 0)"
  shows "(\<forall>i<n. sum_numbers (map (\<lambda>c. perNight c ! i) (calculateCosts people totalPrice n)) =
         sum_numbers (replicate (peopleThisNight people i)
           (fdiv (fdiv totalPrice (of_count n)) (of_count (peopleThisNight people i))))) \<and>
     (\<forall>i<n. peopleThisNight people i = 0 \<longrightarrow>
         sum_numbers (map (\<lambda>c. perNight c ! i) (calculateCosts people totalPrice n)) = Num 0) \<and>
     (\<forall>i<n. peopleThisNight people i = 1 \<longrightarrow>
         sum_numbers (map (\<lambda>c. perNight c ! i) (calculateCosts people totalPrice n)) =
           (if fdiv totalPrice (of_count n) = NegZero then Num 0 else fdiv totalPrice (of_count n))) \<and>
     (\<forall>pr. totalPrice = Num pr \<and> exact_allocation people pr n \<longrightarrow>
        fdiv totalPrice (of_count n) = Num (pr / of_nat n) \<and>
        (\<forall>i<n. sum_numbers (map (\<lambda>c. perNight c ! i) (calculateCosts people totalPrice n)) =
           (if 0 < peopleThisNight people i then fdiv totalPrice (of_count n) else Num 0)) \<and>
        sum_numbers (map total_c (calculateCosts people totalPrice n)) =
           Num (pr / of_nat n * of_nat (attended people n)) \<and>
        (sum_numbers (map total_c (calculateCosts people totalPrice n)) = totalPrice \<longleftrightarrow>
           (\<forall>i<n. 0 < peopleThisNight people i)))"
proof -
  have col: "sum_numbers (map (\<lambda>c. perNight c ! i) (calculateCosts people totalPrice n)) =
         sum_numbers (replicate (peopleThisNight people i)
           (fdiv (fdiv totalPrice (of_count n)) (of_count (peopleThisNight people i))))"
    if "i < n" for i
    by (rule night_column_any [OF assms that])
  have none: "sum_numbers (map (\<lambda>c. perNight c ! i) (calculateCosts people totalPrice n)) = Num 0"
    if "i < n" "peopleThisNight people i = 0" for i
    using col [OF that(1)] that(2) by (simp add: sum_numbers_def)
  have single: "sum_numbers (map (\<lambda>c. perNight c ! i) (calculateCosts people totalPrice n)) =
      (if fdiv totalPrice (of_count n) = NegZero then Num 0 else fdiv totalPrice (of_count n))"
    if "i < n" "peopleThisNight people i = 1" for i
    using col [OF that(1)] that(2)
    by (simp add: sum_numbers_def of_count_simps fdiv_one fadd_zero_left)
  have exact: "fdiv totalPrice (of_count n) = Num (pr / of_nat n) \<and>
        (\<forall>i<n. sum_numbers (map (\<lambda>c. perNight c ! i) (calculateCosts people totalPrice n)) =
           (if 0 < peopleThisNight people i then fdiv totalPrice (of_count n) else Num 0)) \<and>
        sum_numbers (map total_c (calculateCosts people totalPrice n)) =
           Num (pr / of_nat n * of_nat (attended people n)) \<and>
        (sum_numbers (map total_c (calculateCosts people totalPrice n)) = totalPrice \<longleftrightarrow>
           (\<forall>i<n. 0 < peopleThisNight people i))"
    if pr: "totalPrice = Num pr" and ex: "exact_allocation people pr n" for pr
  proof -
    from assms(2) pr have pr0: "pr \<noteq> 0"
      by (simp add: js_eq_Num_0)
    have ppn: "fdiv totalPrice (of_count n) = Num (pr / of_nat n)"
      unfolding pr using ex by (intro fdiv_of_count_exact pr0 assms(1)) (simp add: exact_allocation_def)
    have cols: "\<forall>i<n. sum_numbers (map (\<lambda>c. perNight c ! i) (calculateCosts people totalPrice n)) =
           (if 0 < peopleThisNight people i then fdiv totalPrice (of_count n) else Num 0)"
      unfolding ppn unfolding pr using exact_columns_any [OF assms(1) pr0 ex] by blast
    have tot: "sum_numbers (map total_c (calculateCosts people totalPrice n)) =
           Num (pr / of_nat n * of_nat (attended people n))"
      unfolding pr by (rule exact_totals_any [OF assms(1) pr0 ex])
    have "sum_numbers (map total_c (calculateCosts people totalPrice n)) = totalPrice \<longleftrightarrow>
           attended people n = n"
      using full_price_iff [OF assms(1) pr0, of "attended people n"]
      by (simp only: tot) (simp add: pr)
    then have "sum_numbers (map total_c (calculateCosts people totalPrice n)) = totalPrice \<longleftrightarrow>
           (\<forall>i<n. 0 < peopleThisNight people i)"
      by (simp only: attended_full)
    with ppn cols tot show ?thesis
      by blast
  qed
  from col none single exact show ?thesis
    by blast
qed

theorem night_sum_shares_witness:
  "sum_numbers (map (\<lambda>c. perNight c ! 0) (calculateCosts
      [\<lparr>id_p = ''1'', name = ''Alice'', nights = [True, True]\<rparr>,
       \<lparr>id_p = ''2'', name = ''Bob'', nights = [True, False]\<rparr>] (Num 200) 2)) = Num 100 \<and>
   sum_numbers (map (\<lambda>c. perNight c ! 1) (calculateCosts
      [\<lparr>id_p = ''1'', name = ''Alice'', nights = [True, True]\<rparr>,
       \<lparr>id_p = ''2'', name = ''Bob'', nights = [True, False]\<rparr>] (Num 200) 2)) = Num 100 \<and>
   sum_numbers (map total_c (calculateCosts
      [\<lparr>id_p = ''1'', name = ''Alice'', nights = [True, True]\<rparr>,
       \<lparr>id_p = ''2'', name = ''Bob'', nights = [True, False]\<rparr>] (Num 200) 2)) = Num 200"
proof -
  let ?people = "[\<lparr>id_p = ''1'', name = ''Alice'', nights = [True, True]\<rparr>,
       \<lparr>id_p = ''2'', name = ''Bob'', nights = [True, False]\<rparr>]"
  have h1: "(2::nat) \<noteq> 0" by simp
  have h2: "\<not> js_eq (Num 200) (Num 0)" by (simp add: not_js_eq_zero)
  have upt2: "[0..<2] = [0, 1]"
    by (simp add: numeral_2_eq_2)
  have k: "peopleThisNight ?people 0 = 2" "peopleThisNight ?people 1 = 1"
    "peopleThisNight ?people (Suc 0) = 1"
    by (simp_all add: peopleThisNight_def stays_def)
  have att: "attended ?people 2 = 2"
    by (simp add: attended_def upt2 k)
  have ex: "exact_allocation ?people 200 2"
    by (simp add: exact_allocation_def exact_sums_def share_def stays_def upt2 k
        less_2_cases_iff representable_numeral)
  from night_sum_shares [OF h1 h2, THEN conjunct2, THEN conjunct2, THEN conjunct2,
      rule_format, of 200] ex
  have cols: "\<forall>i<2. sum_numbers (map (\<lambda>c. perNight c ! i) (calculateCosts ?people (Num 200) 2)) =
        (if 0 < peopleThisNight ?people i then fdiv (Num 200) (of_count 2) else Num 0)"
    and ppn: "fdiv (Num 200) (of_count 2) = Num (200 / of_nat 2)"
    and tot: "sum_numbers (map total_c (calculateCosts ?people (Num 200) 2)) =
        Num (200 / of_nat 2 * of_nat (attended ?people 2))"
    by blast+
  from cols have "sum_numbers (map (\<lambda>c. perNight c ! 0) (calculateCosts ?people (Num 200) 2)) = Num 100"
    by (simp add: k ppn)
  moreover from cols have "sum_numbers (map (\<lambda>c. perNight c ! 1) (calculateCosts ?people (Num 200) 2)) = Num 100"
    by (simp add: k ppn)
  moreover from tot have "sum_numbers (map total_c (calculateCosts ?people (Num 200) 2)) = Num 200"
    by (simp add: att)
  ultimately show ?thesis
    by simp
qed

section \<open>Properties of dates\<close>

lemma digit_range: "digit c = Some a \<Longrightarrow> 0 \<le> a \<and> a \<le> 9"
  by (auto simp: digit_def Let_def split: if_splits)

lemma digits_range: "digits cs = Some v \<Longrightarrow> 0 \<le> v \<and> v < 10 ^ length cs"
proof (induction cs arbitrary: v)
  case Nil
  then show ?case by simp
next
  case (Cons c cs)
  from Cons.prems obtain a b where a: "digit c = Some a" and b: "digits cs = Some b"
    and v: "v = a * 10 ^ length cs + b"
    by (auto split: option.splits)
  from digit_range [OF a] have a09: "0 \<le> a" "a \<le> 9" by simp_all
  from Cons.IH [OF b] have b0: "0 \<le> b" "b < 10 ^ length cs" by simp_all
  define X where "X = (10::int) ^ length cs"
  have X: "0 \<le> X" by (simp add: X_def)
  have up: "a * X \<le> 9 * X"
    using a09 X by (intro mult_right_mono)
  have low: "0 \<le> a * X"
    using a09 X by simp
  have "0 \<le> a * X + b \<and> a * X + b < 10 * X"
    using up low b0 unfolding X_def [symmetric] by linarith
  then show ?case
    by (simp add: v X_def)
qed

lemma iso_date_range:
  assumes "iso_date s = Some (y, m, d)"
  shows "length s = 10 \<and> 0 \<le> y \<and> y \<le> 9999 \<and> 1 \<le> m \<and> m \<le> 12 \<and> 1 \<le> d \<and> d \<le> DaysInMonth y m"
proof -
  from assms have len: "length s = 10"
    by (simp add: iso_date_def split: if_splits)
  from assms have y: "digits (take 4 s) = Some y"
    and rest: "1 \<le> m \<and> m \<le> 12 \<and> 1 \<le> d \<and> d \<le> DaysInMonth y m"
    by (auto simp: iso_date_def split: if_splits option.splits)
  from digits_range [OF y] len have "0 \<le> y \<and> y \<le> 9999"
    by simp
  with len rest show ?thesis by simp
qed

lemma iso_time_midnight: "iso_time ''00:00:00'' = Some 0"
  by (simp add: iso_time_def digit_def MakeTime_def)

lemma iso_local_midnight:
  "iso_local (s @ ''T00:00:00'') =
     (case iso_date s of Some (y, m, d) \<Rightarrow> Some (MakeDay y (m - 1) d * msPerDay) | None \<Rightarrow> None)"
proof (cases "length s = 10")
  case True
  then show ?thesis
    by (simp add: iso_local_def iso_time_midnight nth_append MakeDate_def split: option.splits)
next
  case False
  then have "iso_date s = None"
    by (simp add: iso_date_def)
  with False show ?thesis
    by (simp add: iso_local_def)
qed


lemma DayFromYear_mono: "a \<le> b \<Longrightarrow> DayFromYear a \<le> DayFromYear b"
proof (induction b rule: int_ge_induct)
  case base
  show ?case by simp
next
  case (step i)
  with DayFromYear_less [of i] show ?case by simp
qed

lemma month_cases:
  fixes m :: int
  assumes "1 \<le> m" and "m \<le> 12"
  shows "m = 1 \<or> m = 2 \<or> m = 3 \<or> m = 4 \<or> m = 5 \<or> m = 6 \<or> m = 7 \<or> m = 8 \<or> m = 9 \<or> m = 10
    \<or> m = 11 \<or> m = 12"
  using assms by arith

lemma MakeDay_valid:
  assumes "1 \<le> m" and "m \<le> 12"
  shows "MakeDay y (m - 1) d = DayFromYear y + month_start y (m - 1) + d - 1"
proof -
  have "(m - 1) div 12 = 0" "(m - 1) mod 12 = m - 1"
    using assms by simp_all
  then show ?thesis
    by (simp add: MakeDay_def)
qed

lemma year_length: "DaysInYear y = 365 \<or> DaysInYear y = 366"
  by (simp add: DaysInYear_def)

lemma day_in_year:
  assumes "1 \<le> m" and "m \<le> 12" and "1 \<le> d" and "d \<le> DaysInMonth y m"
  shows "0 \<le> month_start y (m - 1) + d - 1 \<and> month_start y (m - 1) + d - 1 < DaysInYear y"
  using month_cases [OF assms(1,2)] year_length [of y] assms(3,4)
  by (auto simp: month_start_def DaysInMonth_def)

lemma month_order:
  assumes "1 \<le> m2" and "m2 < m1" and "m1 \<le> 12" and "d2 \<le> DaysInMonth y m2" and "1 \<le> d1"
  shows "month_start y (m2 - 1) + d2 - 1 < month_start y (m1 - 1) + d1 - 1"
proof -
  have m1: "1 \<le> m1" and m2: "m2 \<le> 12"
    using assms(1-3) by simp_all
  have stp: "month_start y (m - 1) + DaysInMonth y m \<le> month_start y m" if "1 \<le> m" "m \<le> 11" for m
  proof -
    from that have "1 \<le> m" "m \<le> 12" by simp_all
    from month_cases [OF this] that(2) year_length [of y] show ?thesis
      by (auto simp: month_start_def DaysInMonth_def)
  qed
  have mono: "month_start y a \<le> month_start y b" if "1 \<le> a" "a \<le> b" "b \<le> 11" for a b
    using that(2,1,3)
  proof (induction b rule: int_ge_induct)
    case base
    show ?case by simp
  next
    case (step i)
    then have i: "1 \<le> i + 1" "i + 1 \<le> 11" by simp_all
    have "0 \<le> DaysInMonth y (i + 1)"
      by (simp add: DaysInMonth_def)
    with stp [OF i] step show ?case by simp
  qed
  have "month_start y (m2 - 1) + d2 \<le> month_start y (m2 - 1) + DaysInMonth y m2"
    using assms(4) by simp
  also have "\<dots> \<le> month_start y m2"
    using assms(1-3) by (intro stp) simp_all
  also have "\<dots> \<le> month_start y (m1 - 1)"
    using assms(1-3) by (intro mono) simp_all
  finally show ?thesis
    using assms(5) by simp
qed

text \<open>The day number of a calendar date grows with the date.\<close>

lemma MakeDay_order:
  assumes v1: "1 \<le> m1" "m1 \<le> 12" "1 \<le> d1" "d1 \<le> DaysInMonth y1 m1"
    and v2: "1 \<le> m2" "m2 \<le> 12" "1 \<le> d2" "d2 \<le> DaysInMonth y2 m2"
    and lt: "y2 < y1 \<or> (y2 = y1 \<and> (m2 < m1 \<or> (m2 = m1 \<and> d2 < d1)))"
  shows "MakeDay y2 (m2 - 1) d2 < MakeDay y1 (m1 - 1) d1"
proof -
  note e1 = MakeDay_valid [OF v1(1,2), of y1 d1]
  note e2 = MakeDay_valid [OF v2(1,2), of y2 d2]
  from lt consider "y2 < y1" | "y2 = y1" "m2 < m1" | "y2 = y1" "m2 = m1" "d2 < d1"
    by blast
  then show ?thesis
  proof cases
    case 1
    from day_in_year [OF v2] have "MakeDay y2 (m2 - 1) d2 < DayFromYear y2 + DaysInYear y2"
      by (simp add: e2)
    also have "\<dots> = DayFromYear (y2 + 1)"
      by (simp add: DayFromYear_step)
    also have "\<dots> \<le> DayFromYear y1"
      using 1 by (intro DayFromYear_mono) simp
    also have "\<dots> \<le> MakeDay y1 (m1 - 1) d1"
      using day_in_year [OF v1] by (simp add: e1)
    finally show ?thesis .
  next
    case 2
    from month_order [OF v2(1) 2(2) v1(2) v2(4) v1(3)] 2(1) show ?thesis
      unfolding e1 e2 by simp
  next
    case 3
    then show ?thesis
      unfolding e1 e2 by simp
  qed
qed

lemma DayFromYear_range:
  assumes "0 \<le> y" and "y \<le> 9999"
  shows "- 719528 \<le> DayFromYear y \<and> DayFromYear y \<le> 2932532"
proof -
  have "DayFromYear 0 = - 719528" "DayFromYear 9999 = 2932532"
    by (simp_all add: DayFromYear_def)
  with DayFromYear_mono [OF assms(1)] DayFromYear_mono [OF assms(2)] show ?thesis
    by simp
qed

lemma MakeDay_range:
  assumes "0 \<le> y" and "y \<le> 9999" and "1 \<le> m" and "m \<le> 12" and "1 \<le> d" and "d \<le> DaysInMonth y m"
  shows "\<bar>MakeDay y (m - 1) d * msPerDay\<bar> \<le> 253402300800000"
proof -
  from day_in_year [OF assms(3-6)] year_length [of y] DayFromYear_range [OF assms(1,2)]
  have "- 719528 \<le> MakeDay y (m - 1) d \<and> MakeDay y (m - 1) d \<le> 2932897"
    by (auto simp: MakeDay_valid [OF assms(3,4)])
  then show ?thesis
    by (simp add: msPerDay_def abs_le_iff)
qed


lemma round_pos_nonneg:
  assumes "0 < q"
  shows "0 \<le> round_pos q"
proof -
  have "of_int 0 \<le> q / pow2 (max (ilog2 q) (- 1022) - 52)"
    using assms by (simp add: less_imp_le)
  then have "0 \<le> round_half_even (q / pow2 (max (ilog2 q) (- 1022) - 52))"
    by (rule round_half_even_ge)
  then show ?thesis
    by (simp add: round_pos_def Let_def less_imp_le)
qed

text \<open>Rounding does not pass a representable number: it is monotone.\<close>

lemma round_pos_le_representable:
  assumes "0 < q" and "q \<le> r" and "representable r"
  shows "round_pos q \<le> r"
proof -
  from assms(3) obtain m e where me: "r = of_int m * pow2 e" "\<bar>m\<bar> < 2 ^ 53" "- 1074 \<le> e"
    unfolding representable_def by blast
  define L where "L = ilog2 q"
  define e0 where "e0 = max L (- 1022) - 52"
  from ilog2_bounds [OF assms(1)] have L: "pow2 L \<le> q"
    by (simp add: L_def)
  have m53: "m < 2 ^ 53"
    using me(2) by simp
  have "(of_int m :: rat) < of_int (2 ^ 53)"
    using m53 by (simp only: of_int_less_iff)
  then have "r < of_int (2 ^ 53) * pow2 e"
    unfolding me(1) by (rule mult_strict_right_mono) (rule pow2_pos)
  also have "\<dots> = pow2 (53 + e)"
    by (simp only: pow2_53 pow2_add)
  finally have "pow2 L < pow2 (53 + e)"
    using L assms(2) by simp
  then have "L < 53 + e"
    by (rule pow2_less_cancel)
  with me(3) have le: "e0 \<le> e"
    by (simp add: e0_def)
  define k where "k = nat (e - e0)"
  have pk: "pow2 (e - e0) = of_int (2 ^ k)"
    using le by (simp add: pow2_nat k_def)
  have "r / pow2 e0 = of_int m * pow2 (e - e0)"
    by (simp add: me(1) pow2_diff)
  also have "\<dots> = of_int (m * 2 ^ k)"
    by (simp add: pk)
  finally have quot: "r / pow2 e0 = of_int (m * 2 ^ k)" .
  have "q / pow2 e0 \<le> r / pow2 e0"
    using assms(2) by (simp add: divide_right_mono less_imp_le)
  then have "q / pow2 e0 \<le> of_int (m * 2 ^ k)"
    by (simp only: quot)
  then have "round_half_even (q / pow2 e0) \<le> m * 2 ^ k"
    by (rule round_half_even_le)
  then have "(of_int (round_half_even (q / pow2 e0)) :: rat) \<le> of_int (m * 2 ^ k)"
    by (simp only: of_int_le_iff)
  then have "of_int (round_half_even (q / pow2 e0)) * pow2 e0 \<le> of_int (m * 2 ^ k) * pow2 e0"
    by (rule mult_right_mono) (simp add: less_imp_le)
  also have "\<dots> = r / pow2 e0 * pow2 e0"
    by (simp only: quot)
  also have "\<dots> = r"
    by simp
  finally show ?thesis
    by (simp add: round_pos_def Let_def L_def e0_def)
qed

lemma fsub_int:
  assumes "\<bar>a - b\<bar> < 2 ^ 53"
  shows "fsub (Num (of_int a)) (Num (of_int b)) = Num (of_int (a - b))"
proof (cases "b = 0")
  case True
  then show ?thesis
    by (simp add: fsub_def fneg_def fadd_def)
next
  case False
  have "round64 (of_int (a - b)) = Num (of_int (a - b))"
    by (rule round64_exact) (rule representable_int [OF assms])
  with False show ?thesis
    by (simp add: fsub_def fneg_def fadd_def)
qed

text \<open>
  Parsing a valid date at local midnight: the day number of the date, as a local time,
  converted to UTC. The time zone adjustment is less than a day, so the time value is
  in the range of dates.
\<close>

lemma Date_parse_midnight:
  assumes "iso_date s = Some (y, m, d)" and "\<forall>t. \<bar>LocalTZA env t False\<bar> < msPerDay"
  shows "Date_parse env (s @ ''T00:00:00'') = Some (UTC env (MakeDay y (m - 1) d * msPerDay))"
proof -
  let ?t = "MakeDay y (m - 1) d * msPerDay"
  from iso_date_range [OF assms(1)]
  have "\<bar>?t\<bar> \<le> 253402300800000"
    by (intro MakeDay_range) simp_all
  moreover have "\<bar>LocalTZA env ?t False\<bar> < 86400000"
    using assms(2) by (simp add: msPerDay_def)
  ultimately have "\<bar>UTC env ?t\<bar> \<le> 8640000000000000"
    by (simp add: UTC_def)
  then show ?thesis
    by (simp add: Date_parse_def iso_local_midnight assms(1) TimeClip_def)
qed

lemma round_pos_ge_int:
  assumes "0 < q" and "q < pow2 53" and "of_int a \<le> q"
  shows "of_int a \<le> round_pos q"
proof -
  define L where "L = ilog2 q"
  define e0 where "e0 = max L (- 1022) - 52"
  from ilog2_bounds [OF assms(1)] have "pow2 L \<le> q"
    by (simp add: L_def)
  with assms(2) have "pow2 L < pow2 53"
    by simp
  then have "L < 53"
    by (rule pow2_less_cancel)
  then have e0: "e0 \<le> 0"
    by (simp add: e0_def)
  define k where "k = nat (- e0)"
  have "pow2 (0 - e0) = of_int (2 ^ k)"
    using e0 by (simp add: pow2_nat k_def)
  then have inv: "1 / pow2 e0 = of_int (2 ^ k)"
    by (simp only: pow2_diff pow2_0)
  have "of_int a / pow2 e0 = of_int a * (1 / pow2 e0)"
    by simp
  also have "\<dots> = of_int (a * 2 ^ k)"
    by (simp only: inv of_int_mult)
  finally have quot: "of_int a / pow2 e0 = of_int (a * 2 ^ k)" .
  have "of_int a / pow2 e0 \<le> q / pow2 e0"
    using assms(3) by (simp add: divide_right_mono less_imp_le)
  then have "of_int (a * 2 ^ k) \<le> q / pow2 e0"
    by (simp only: quot)
  then have "a * 2 ^ k \<le> round_half_even (q / pow2 e0)"
    by (rule round_half_even_ge)
  then have "(of_int (a * 2 ^ k) :: rat) \<le> of_int (round_half_even (q / pow2 e0))"
    by (simp only: of_int_le_iff)
  then have ineq: "of_int (a * 2 ^ k) * pow2 e0 \<le> of_int (round_half_even (q / pow2 e0)) * pow2 e0"
    by (rule mult_right_mono) (simp add: less_imp_le)
  have "of_int (a * 2 ^ k) * pow2 e0 = of_int a / pow2 e0 * pow2 e0"
    by (simp only: quot)
  also have "\<dots> = of_int a"
    by simp
  finally have eq: "of_int (a * 2 ^ k) * pow2 e0 = of_int a" .
  have rp: "round_pos q = of_int (round_half_even (q / pow2 e0)) * pow2 e0"
    by (simp add: round_pos_def Let_def L_def e0_def)
  have "of_int a = of_int (a * 2 ^ k) * pow2 e0"
    by (rule eq [symmetric])
  also have "\<dots> \<le> of_int (round_half_even (q / pow2 e0)) * pow2 e0"
    by (rule ineq)
  also have "\<dots> = round_pos q"
    by (rule rp [symmetric])
  finally show ?thesis .
qed

text \<open>
  \<^verbatim>\<open>Math.floor(diffTime / (1000 * 60 * 60 * 24))\<close> for a positive difference of \<open>a\<close>
  whole days and a remainder: the rounding of the quotient cannot reach \<open>a + 1\<close>.
\<close>

lemma floor_days:
  assumes "0 < k" and "0 \<le> a" and "a < 2 ^ 26"
    and "a * 86400000 \<le> k" and "k < (a + 1) * 86400000"
  shows "js_floor (fdiv (Num (of_int k)) (Num 86400000)) = Num (of_int a)"
proof -
  define q :: rat where "q = of_int k / 86400000"
  define r :: rat where "r = of_int ((a + 1) * 2 ^ 27 - 1) * pow2 (- 27)"
  have r_eq: "r = of_int (a + 1) - 1 / 134217728"
    by (simp add: r_def pow2_def field_simps)
  have q: "0 < q"
    using assms(1) by (simp add: q_def)
  have "k + 1 \<le> (a + 1) * 86400000"
    using assms(5) by simp
  then have "(of_int (k + 1) :: rat) \<le> of_int ((a + 1) * 86400000)"
    by (simp only: of_int_le_iff)
  then have "q \<le> of_int (a + 1) - 1 / 86400000"
    by (simp add: q_def field_simps)
  also have "\<dots> \<le> r"
    by (simp add: r_eq)
  finally have qr: "q \<le> r" .
  have "(a + 1) * 2 ^ 27 \<le> 2 ^ 26 * 2 ^ 27"
    using assms(3) by (intro mult_right_mono) simp_all
  then have "\<bar>(a + 1) * 2 ^ 27 - 1\<bar> < 2 ^ 53"
    using assms(2) by simp
  then have rep: "representable r"
    by (intro representable_small [of _ "(a + 1) * 2 ^ 27 - 1" "- 27"]) (simp_all add: r_def)
  have up: "round_pos q \<le> r"
    by (rule round_pos_le_representable [OF q qr rep])
  have "(of_int (a * 86400000) :: rat) \<le> of_int k"
    using assms(4) by (simp only: of_int_le_iff)
  then have aq: "of_int a \<le> q"
    by (simp add: q_def field_simps)
  have "(of_int (a + 1) :: rat) \<le> of_int (2 ^ 26)"
    using assms(3) by (simp only: of_int_le_iff)
  then have r26: "r < 2 ^ 26"
    by (simp add: r_eq)
  have "(2 :: rat) ^ 26 = pow2 26"
    by (simp add: pow2_def)
  also have "\<dots> < pow2 53"
    by (rule pow2_strict_mono) simp
  finally have q53: "q < pow2 53"
    using qr r26 by simp
  have low: "of_int a \<le> round_pos q"
    by (rule round_pos_ge_int [OF q q53 aq])
  have "pow2 53 < pow2 1024"
    by (rule pow2_strict_mono) simp
  with up r26 \<open>2 ^ 26 = pow2 26\<close> \<open>pow2 26 < pow2 53\<close> have "\<not> pow2 1024 \<le> round_pos q"
    by simp
  with q have "round64 q = Num (round_pos q)"
    by (simp add: round64_def)
  moreover have "\<lfloor>round_pos q\<rfloor> = a"
    using up low by (intro floor_unique) (simp_all add: r_eq)
  ultimately show ?thesis
    using assms(1) by (simp add: fdiv_def js_floor_def q_def)
qed

section \<open>Stays of no nights\<close>




section \<open>Night counts\<close>

lemma MakeDay_days:
  assumes "0 \<le> y" and "y \<le> 9999" and "1 \<le> m" and "m \<le> 12" and "1 \<le> d" and "d \<le> DaysInMonth y m"
  shows "- 719528 \<le> MakeDay y (m - 1) d \<and> MakeDay y (m - 1) d \<le> 2932897"
  using day_in_year [OF assms(3-6)] year_length [of y] DayFromYear_range [OF assms(1,2)]
  by (auto simp: MakeDay_valid [OF assms(3,4)])

text \<open>
  Where the local time zone adjustment never changes (UTC, or any zone without
  daylight saving time), the night count of two valid dates, check-out after check-in,
  is the difference of their day numbers.
\<close>

lemma calculateNights_fixed_offset:
  assumes zone: "\<forall>t. LocalTZA env t False = off" "\<bar>off\<bar> < msPerDay"
    and ci: "iso_date checkIn = Some (y1, m1, d1)" and co: "iso_date checkOut = Some (y2, m2, d2)"
    and after: "y1 < y2 \<or> (y1 = y2 \<and> (m1 < m2 \<or> (m1 = m2 \<and> d1 < d2)))"
  shows "calculateNights env checkIn checkOut =
           Num (of_int (MakeDay y2 (m2 - 1) d2 - MakeDay y1 (m1 - 1) d1))"
proof -
  define D1 where "D1 = MakeDay y1 (m1 - 1) d1"
  define D2 where "D2 = MakeDay y2 (m2 - 1) d2"
  have z: "\<forall>t. \<bar>LocalTZA env t False\<bar> < msPerDay"
    using zone by simp
  have p1: "Date_parse env (checkIn @ ''T00:00:00'') = Some (D1 * msPerDay - off)"
    using Date_parse_midnight [OF ci z] zone(1) by (simp add: UTC_def D1_def)
  have p2: "Date_parse env (checkOut @ ''T00:00:00'') = Some (D2 * msPerDay - off)"
    using Date_parse_midnight [OF co z] zone(1) by (simp add: UTC_def D2_def)
  from iso_date_range [OF ci]
  have v1: "1 \<le> m1" "m1 \<le> 12" "1 \<le> d1" "d1 \<le> DaysInMonth y1 m1" and r1: "0 \<le> y1" "y1 \<le> 9999"
    and ne1: "checkIn \<noteq> []"
    by auto
  from iso_date_range [OF co]
  have v2: "1 \<le> m2" "m2 \<le> 12" "1 \<le> d2" "d2 \<le> DaysInMonth y2 m2" and r2: "0 \<le> y2" "y2 \<le> 9999"
    and ne2: "checkOut \<noteq> []"
    by auto
  have days: "D1 < D2"
    unfolding D1_def D2_def by (rule MakeDay_order [OF v2 v1 after])
  from MakeDay_days [OF r1 v1] MakeDay_days [OF r2 v2]
  have span: "D2 - D1 < 2 ^ 26"
    by (simp add: D1_def D2_def)
  have diff: "D2 * msPerDay - off - (D1 * msPerDay - off) = (D2 - D1) * 86400000"
    by (simp add: msPerDay_def algebra_simps)
  have pos: "0 < (D2 - D1) * 86400000"
    using days by simp
  have "(D2 - D1) * 86400000 < 2 ^ 26 * 86400000"
    using span by (intro mult_strict_right_mono) simp_all
  then have small: "\<bar>D2 * msPerDay - off - (D1 * msPerDay - off)\<bar> < 2 ^ 53"
    using pos unfolding diff by simp
  have "calculateNights env checkIn checkOut =
      js_floor (fdiv (fsub (Num (of_int (D2 * msPerDay - off))) (Num (of_int (D1 * msPerDay - off))))
        (Num 86400000))"
    using days ne1 ne2 by (simp add: calculateNights_def p1 p2 date_le_def getTime_def msPerDay_def)
  also have "\<dots> = js_floor (fdiv (Num (of_int ((D2 - D1) * 86400000))) (Num 86400000))"
    by (simp only: fsub_int [OF small] diff)
  also have "\<dots> = Num (of_int (D2 - D1))"
    using pos days span by (intro floor_days) simp_all
  finally show ?thesis
    by (simp only: D1_def D2_def)
qed

lemma iso_date_march:
  "iso_date ''2024-03-09'' = Some (2024, 3, 9)"
  "iso_date ''2024-03-11'' = Some (2024, 3, 11)"
  by (simp_all add: iso_date_def digit_def DaysInMonth_def DaysInYear_def)

lemma MakeDay_march:
  "MakeDay 2024 2 9 = 19791" "MakeDay 2024 2 11 = 19793"
  by (simp_all add: MakeDay_def month_start_def DayFromYear_def DaysInYear_def)

lemma new_york_zone: "\<forall>t. \<bar>LocalTZA new_york_2024 t False\<bar> < msPerDay"
  by (simp add: new_york_2024_def msPerDay_def)

text \<open>
  C2 fails where clocks change. In the zone of New York, local midnight of
  2024-03-09 is 05:00 UTC and local midnight of 2024-03-11, after the change to
  daylight saving time on 2024-03-10, is 04:00 UTC: 47 hours later. The floor of
  47 / 24 is 1, for a stay of two nights.
\<close>

theorem calculateNights_daylight_saving:
  "calculateNights new_york_2024 ''2024-03-09'' ''2024-03-11'' = Num 1"
proof -
  have p1: "Date_parse new_york_2024 (''2024-03-09'' @ ''T00:00:00'') = Some 1709960400000"
    using Date_parse_midnight [OF iso_date_march(1) new_york_zone]
    by (simp add: MakeDay_march UTC_def new_york_2024_def msPerDay_def)
  have p2: "Date_parse new_york_2024 (''2024-03-11'' @ ''T00:00:00'') = Some 1710129600000"
    using Date_parse_midnight [OF iso_date_march(2) new_york_zone]
    by (simp add: MakeDay_march UTC_def new_york_2024_def msPerDay_def)
  have sub: "fsub (Num 1710129600000) (Num 1709960400000) = Num 169200000"
    using fsub_int [of 1710129600000 1709960400000] by simp
  have fl: "js_floor (fdiv (Num 169200000) (Num 86400000)) = Num 1"
    using floor_days [of 169200000 1] by simp
  show ?thesis
    using p1 p2 by (simp add: calculateNights_def date_le_def getTime_def sub fl)
qed

section \<open>Night dates\<close>

lemma pad_2: "pad 2 k = [digit_char (k div 10 mod 10), digit_char (k mod 10)]"
  by (simp add: numeral_2_eq_2)

lemma pad_3:
  "pad 3 k = [digit_char (k div 10 div 10 mod 10), digit_char (k div 10 mod 10), digit_char (k mod 10)]"
  by (simp add: numeral_3_eq_3)

lemma pad_4:
  "pad 4 k = [digit_char (k div 10 div 10 div 10 mod 10), digit_char (k div 10 div 10 mod 10),
    digit_char (k div 10 mod 10), digit_char (k mod 10)]"
proof -
  have "(4::nat) = Suc (Suc (Suc (Suc 0)))" by simp
  then show ?thesis by (simp only: pad.simps append.simps)
qed

lemma digit_chars:
  "digit_char 0 = CHR ''0''" "digit_char 1 = CHR ''1''" "digit_char 2 = CHR ''2''"
  "digit_char 3 = CHR ''3''" "digit_char 4 = CHR ''4''" "digit_char 5 = CHR ''5''"
  "digit_char 6 = CHR ''6''" "digit_char 7 = CHR ''7''" "digit_char 8 = CHR ''8''"
  "digit_char 9 = CHR ''9''"
  by (simp_all add: digit_char_def)

text \<open>
  The instants of the example: local midnight of 2024-01-15 one hour east of
  Greenwich is 2024-01-14 23:00 UTC.
\<close>

lemma year_2024:
  "YearFromTime 1705273200000 = 2024" "YearFromTime 1705276800000 = 2024"
  by (simp_all add: YearFromTime_def Day_def msPerDay_def year_search.simps DayFromYear_def)

lemma month_january:
  "MonthFromTime 1705273200000 = 0" "MonthFromTime 1705276800000 = 0"
  by (simp_all add: MonthFromTime_def DayWithinYear_def InLeapYear_def year_2024 Day_def msPerDay_def
      DayFromYear_def DaysInYear_def)

lemma date_14_15:
  "DateFromTime 1705273200000 = 14" "DateFromTime 1705276800000 = 15"
  by (simp_all add: DateFromTime_def month_january DayWithinYear_def InLeapYear_def year_2024 Day_def
      msPerDay_def DayFromYear_def DaysInYear_def)

lemma MakeDay_january: "MakeDay 2024 0 15 = 19737"
  by (simp add: MakeDay_def month_start_def DayFromYear_def DaysInYear_def)

lemma iso_date_january: "iso_date ''2024-01-15'' = Some (2024, 1, 15)"
  by (simp add: iso_date_def digit_def DaysInMonth_def DaysInYear_def)

lemma east_zone: "\<forall>t. \<bar>LocalTZA (fixed_zone 3600000) t False\<bar> < msPerDay"
  by (simp add: fixed_zone_def msPerDay_def)

lemma east_parse:
  "Date_parse (fixed_zone 3600000) (''2024-01-15'' @ ''T00:00:00'') = Some 1705273200000"
  using Date_parse_midnight [OF iso_date_january east_zone]
  by (simp add: MakeDay_january UTC_def fixed_zone_def msPerDay_def)

lemma east_getDate: "getDate (fixed_zone 3600000) (Some 1705273200000) = Some 15"
  by (simp add: getDate_def LocalTime_def fixed_zone_def date_14_15)

lemma east_setDate:
  "setDate (fixed_zone 3600000) (Some 1705273200000) (Some 15) = Some 1705273200000"
  by (simp add: setDate_def fixed_zone_def LocalTime_def UTC_def year_2024 month_january
      MakeDay_january TimeClip_def MakeDate_def TimeWithinDay_def msPerDay_def)

lemma east_toISOString: "toISOString (Some 1705273200000) = Inr ''2024-01-14T23:00:00.000Z''"
  by (simp add: toISOString_def year_2024 month_january date_14_15 pad_2 pad_3 pad_4 digit_chars
      HourFromTime_def MinFromTime_def SecFromTime_def msFromTime_def)

text \<open>
  C3 fails east of Greenwich. The loop builds each night's date at local midnight and
  prints it with \<^verbatim>\<open>toISOString\<close>, which prints the UTC date: one hour east of
  Greenwich, local midnight of 2024-01-15 is still 2024-01-14 in UTC, and the one night
  of a stay from 2024-01-15 is labelled 2024-01-14.
\<close>

theorem getNightDates_east_of_Greenwich:
  "getNightDates (fixed_zone 3600000) ''2024-01-15'' 1 = Inr [''2024-01-14'']"
proof -
  have "date_loop (fixed_zone 3600000) (Some 1705273200000) 1 1 [''2024-01-14''] = Inr [''2024-01-14'']"
    by (subst date_loop.simps) simp
  then have "date_loop (fixed_zone 3600000) (Some 1705273200000) 1 0 [] = Inr [''2024-01-14'']"
    by (subst date_loop.simps) (simp add: east_getDate east_setDate east_toISOString split_T_def)
  then show ?thesis
    using east_parse by (simp add: getNightDates_def)
qed

text \<open>The parts of C3 that hold everywhere: nothing to enumerate, nothing returned.\<close>

lemma getNightDates_empty:
  "checkIn = [] \<or> n = 0 \<Longrightarrow> getNightDates env checkIn n = Inr []"
  by (auto simp: getNightDates_def)

section \<open>The store is only extended\<close>

lemma extends_length: "extends s s' \<Longrightarrow> length s \<le> length s'"
proof -
  assume "extends s s'"
  then have "length (take (length s) s') = length s"
    by (simp add: extends_def)
  then show ?thesis
    by simp
qed

lemma extends_nth: "extends s s' \<Longrightarrow> r < length s \<Longrightarrow> s' ! r = s ! r"
proof -
  assume e: "extends s s'" and r: "r < length s"
  then have "take (length s) s' ! r = s ! r"
    by (simp add: extends_def)
  with r show ?thesis
    by simp
qed

lemma extendsI:
  assumes "length s \<le> length s'" and "\<forall>x<length s. s' ! x = s ! x"
  shows "extends s s'"
  unfolding extends_def using assms by (intro nth_equalityI) simp_all

lemma extends_refl: "extends s s"
  by (simp add: extends_def)

lemma extends_trans: "extends a b \<Longrightarrow> extends b c \<Longrightarrow> extends a c"
proof (rule extendsI)
  assume ab: "extends a b" and bc: "extends b c"
  from extends_length [OF ab] extends_length [OF bc] show "length a \<le> length c"
    by simp
  show "\<forall>x<length a. c ! x = a ! x"
  proof (intro allI impI)
    fix x assume x: "x < length a"
    with extends_length [OF ab] have "x < length b" by simp
    then have "c ! x = b ! x" by (rule extends_nth [OF bc])
    also have "\<dots> = a ! x" by (rule extends_nth [OF ab x])
    finally show "c ! x = a ! x" .
  qed
qed

lemma extends_append: "extends s (s @ t)"
  by (simp add: extends_def)

lemma extends_update: "extends s0 s \<Longrightarrow> length s0 \<le> r \<Longrightarrow> extends s0 (s[r := v])"
  by (simp add: extends_def)

lemma extends_lookup: "extends s s' \<Longrightarrow> lookup s r = Some v \<Longrightarrow> lookup s' r = Some v"
  using extends_length [of s s'] extends_nth [of s s' r]
  by (auto simp: lookup_def split: if_splits)

lemma lookup_append: "lookup s r = Some v \<Longrightarrow> lookup (s @ t) r = Some v"
  by (rule extends_lookup [OF extends_append])

lemma lookup_fresh: "lookup (s @ [v]) (length s) = Some v"
  by (simp add: lookup_def)

lemma lookup_update:
  "lookup (s[r := v]) x = (if x < length s then Some (if x = r then v else s ! x) else None)"
  by (simp add: lookup_def nth_list_update)

lemma lookup_less: "lookup s r = Some v \<Longrightarrow> r < length s"
  by (simp add: lookup_def split: if_splits)

lemma lookup_update_other: "x \<noteq> r \<Longrightarrow> lookup (s[r := v]) x = lookup s x"
  by (simp add: lookup_def)

lemma read_person_cells:
  "read_person s r = Some p \<longleftrightarrow>
   (\<exists>nm f. lookup s r = Some (PersonObj (id_p p) nm f) \<and> lookup s f = Some (Flags (nights p)) \<and>
      p = \<lparr>id_p = id_p p, name = nm, nights = nights p\<rparr>)"
  by (auto simp: read_person_def split: option.splits object.splits)

lemma read_cost_cells:
  "read_cost s r = Some c \<longleftrightarrow>
   (\<exists>pn. lookup s r = Some (CostObj (personId c) pn (total_c c)) \<and>
      lookup s pn = Some (NumberArray (perNight c)))"
  by (auto simp: read_cost_def split: option.splits object.splits)

lemma extends_read_person:
  "extends s s' \<Longrightarrow> read_person s r = Some p \<Longrightarrow> read_person s' r = Some p"
  unfolding read_person_cells by (blast intro: extends_lookup)

lemma extends_read_cost:
  "extends s s' \<Longrightarrow> read_cost s r = Some c \<Longrightarrow> read_cost s' r = Some c"
  unfolding read_cost_cells by (blast intro: extends_lookup)

lemma read_all_list_all2: "read_all f xs = Some ys \<longleftrightarrow> list_all2 (\<lambda>x y. f x = Some y) xs ys"
proof (induction xs arbitrary: ys)
  case Nil
  then show ?case by auto
next
  case (Cons x xs)
  show ?case
  proof (cases ys)
    case Nil
    then show ?thesis
      by (simp split: option.splits)
  next
    case (Cons y ys')
    have "read_all f (x # xs) = Some (y # ys') \<longleftrightarrow> f x = Some y \<and> read_all f xs = Some ys'"
      by (auto split: option.splits)
    then show ?thesis
      by (simp only: Cons Cons.IH list_all2_Cons)
  qed
qed

lemma read_all_mono:
  assumes "\<And>x y. f x = Some y \<Longrightarrow> g x = Some y" and "read_all f xs = Some ys"
  shows "read_all g xs = Some ys"
  using assms(2) unfolding read_all_list_all2
  by (rule list_all2_mono) (rule assms(1))

lemma read_all_append:
  "read_all f xs = Some ys \<Longrightarrow> f x = Some y \<Longrightarrow> read_all f (xs @ [x]) = Some (ys @ [y])"
  unfolding read_all_list_all2 by (simp add: list_all2_appendI)

lemma extends_read_people:
  "extends s s' \<Longrightarrow> read_people s r = Some roster \<Longrightarrow> read_people s' r = Some roster"
proof -
  assume e: "extends s s'" and r: "read_people s r = Some roster"
  from r obtain ps where l: "lookup s r = Some (PersonArray ps)"
    and a: "read_all (read_person s) ps = Some roster"
    by (auto simp: read_people_def split: option.splits object.splits)
  from a have "read_all (read_person s') ps = Some roster"
    by (rule read_all_mono [rotated]) (rule extends_read_person [OF e])
  with extends_lookup [OF e l] show ?thesis
    by (simp add: read_people_def)
qed

section \<open>The loops on the store compute the loops on values\<close>

lemma nights_flag_read: "read_person s r = Some p \<Longrightarrow> nights_flag s r i = Some (stays p i)"
  by (auto simp: read_person_def nights_flag_def stays_def split: option.splits object.splits)

lemma filter_nights_read:
  "list_all2 (\<lambda>r p. read_person s r = Some p) ps roster \<Longrightarrow>
   \<exists>rs. filter_nights s ps i = Some rs \<and> length rs = peopleThisNight roster i"
proof (induction rule: list_all2_induct)
  case Nil
  then show ?case by (simp add: peopleThisNight_def)
next
  case (Cons r rs p roster)
  then show ?case
    by (auto simp: peopleThisNight_def nights_flag_read)
qed

lemma people_filter_read:
  assumes "read_people s people = Some roster"
  shows "\<exists>rs. people_filter people i s = Some (length s, s @ [PersonArray rs]) \<and>
    length rs = peopleThisNight roster i"
proof -
  from assms obtain ps where l: "lookup s people = Some (PersonArray ps)"
    and a: "list_all2 (\<lambda>r p. read_person s r = Some p) ps roster"
    by (auto simp: read_people_def read_all_list_all2 split: option.splits object.splits)
  from filter_nights_read [OF a, of i] obtain rs where
    "filter_nights s ps i = Some rs" "length rs = peopleThisNight roster i"
    by blast
  with l show ?thesis
    by (simp add: people_filter_def alloc_def)
qed

lemma night_for_refines:
  assumes people: "read_people s0 people = Some roster"
    and person: "read_person s0 person = Some p"
    and fresh: "length s0 \<le> perNightRef"
  shows "extends s0 s \<Longrightarrow> lookup s perNightRef = Some (NumberArray pn) \<Longrightarrow>
     \<exists>s'. night_for people ppn person n perNightRef i tot s =
             Some (snd (night_loop roster ppn p n i (pn, tot)), s') \<and>
          lookup s' perNightRef = Some (NumberArray (fst (night_loop roster ppn p n i (pn, tot)))) \<and>
          extends s0 s'"
proof (induction "n - i" arbitrary: i pn tot s)
  case 0
  then have "\<not> i < n" by simp
  with 0 show ?case
    by (subst night_for.simps, subst night_loop.simps, subst night_loop.simps) simp
next
  case (Suc d)
  then have less: "i < n" and d: "d = n - (i + 1)"
    by simp_all
  note ext = Suc.prems(1) and pn = Suc.prems(2)
  have flag: "nights_flag s person i = Some (stays p i)"
    by (rule nights_flag_read [OF extends_read_person [OF ext person]])
  show ?case
  proof (cases "stays p i")
    case False
    define s1 where "s1 = s[perNightRef := NumberArray (pn @ [Num 0])]"
    have push: "push_number perNightRef (Num 0) s = Some s1"
      using pn by (simp add: push_number_def s1_def)
    have ext1: "extends s0 s1"
      unfolding s1_def by (rule extends_update [OF ext fresh])
    have pn1: "lookup s1 perNightRef = Some (NumberArray (pn @ [Num 0]))"
      using lookup_less [OF pn] by (simp add: s1_def lookup_update)
    from Suc.hyps(1) [OF d ext1 pn1, of tot] obtain s' where
      r: "night_for people ppn person n perNightRef (i + 1) tot s1 =
            Some (snd (night_loop roster ppn p n (i + 1) (pn @ [Num 0], tot)), s')"
      and l: "lookup s' perNightRef =
            Some (NumberArray (fst (night_loop roster ppn p n (i + 1) (pn @ [Num 0], tot))))"
      and e: "extends s0 s'"
      by blast
    have step: "night_loop roster ppn p n i (pn, tot) =
        night_loop roster ppn p n (i + 1) (pn @ [Num 0], tot)"
      using less False by (subst night_loop.simps) simp
    have "night_for people ppn person n perNightRef i tot s =
        night_for people ppn person n perNightRef (i + 1) tot s1"
      using less False by (subst night_for.simps) (simp add: flag push)
    with r l e show ?thesis
      by (simp only: step) blast
  next
    case True
    define c where "c = costThisNight roster ppn i"
    from people_filter_read [OF extends_read_people [OF ext people], of i] obtain rs where
      filt: "people_filter people i s = Some (length s, s @ [PersonArray rs])"
      and len: "length rs = peopleThisNight roster i"
      by blast
    define s1 where "s1 = s @ [PersonArray rs]"
    define s2 where "s2 = s1[perNightRef := NumberArray (pn @ [c])]"
    have count: "people_length s1 (length s) = Some (peopleThisNight roster i)"
      by (simp add: people_length_def s1_def lookup_fresh len)
    have cost: "(if 0 < peopleThisNight roster i
        then fdiv ppn (of_count (peopleThisNight roster i)) else Num 0) = c"
      by (simp add: c_def costThisNight_def Let_def)
    have pn1: "lookup s1 perNightRef = Some (NumberArray pn)"
      unfolding s1_def by (rule lookup_append [OF pn])
    then have push: "push_number perNightRef c s1 = Some s2"
      by (simp add: push_number_def s2_def)
    have "extends s0 s1"
      unfolding s1_def by (rule extends_trans [OF ext extends_append])
    then have ext2: "extends s0 s2"
      unfolding s2_def by (rule extends_update [OF _ fresh])
    have pn2: "lookup s2 perNightRef = Some (NumberArray (pn @ [c]))"
      using lookup_less [OF pn1] by (simp add: s2_def lookup_update)
    from Suc.hyps(1) [OF d ext2 pn2, of "fadd tot c"] obtain s' where
      r: "night_for people ppn person n perNightRef (i + 1) (fadd tot c) s2 =
            Some (snd (night_loop roster ppn p n (i + 1) (pn @ [c], fadd tot c)), s')"
      and l: "lookup s' perNightRef =
            Some (NumberArray (fst (night_loop roster ppn p n (i + 1) (pn @ [c], fadd tot c))))"
      and e: "extends s0 s'"
      by blast
    have step: "night_loop roster ppn p n i (pn, tot) =
        night_loop roster ppn p n (i + 1) (pn @ [c], fadd tot c)"
      using less True by (subst night_loop.simps) (simp add: c_def Let_def)
    have "night_for people ppn person n perNightRef i tot s =
        night_for people ppn person n perNightRef (i + 1) (fadd tot c) s2"
      using less True
      by (subst night_for.simps) (simp add: flag filt count cost push s1_def [symmetric])
    with r l e show ?thesis
      by (simp only: step) blast
  qed
qed

lemma read_cost_update:
  assumes "lookup s r = Some (CostArray cs)" and "read_cost s x = Some c"
  shows "read_cost (s[r := CostArray cs']) x = Some c"
proof -
  from assms(2) obtain pn where x: "lookup s x = Some (CostObj (personId c) pn (total_c c))"
    and pn: "lookup s pn = Some (NumberArray (perNight c))"
    unfolding read_cost_cells by blast
  from assms(1) x have "x \<noteq> r" by auto
  moreover from assms(1) pn have "pn \<noteq> r" by auto
  ultimately show ?thesis
    unfolding read_cost_cells using x pn by (auto simp: lookup_update_other)
qed

lemma person_for_refines:
  assumes people: "read_people s0 people = Some roster" and fresh: "length s0 \<le> costs"
  shows "extends s0 s \<Longrightarrow> lookup s costs = Some (CostArray cs) \<Longrightarrow>
     read_all (read_cost s) cs = Some acc \<Longrightarrow> k \<le> length roster \<Longrightarrow>
     \<exists>s'. person_for people ppn n costs k s = Some s' \<and> extends s0 s' \<and>
       read_costs s' costs = Some (person_loop roster ppn n (drop k roster) acc)"
proof (induction "length roster - k" arbitrary: k s cs acc)
  case 0
  from people obtain ps where l0: "lookup s0 people = Some (PersonArray ps)"
    and a: "list_all2 (\<lambda>r p. read_person s0 r = Some p) ps roster"
    by (auto simp: read_people_def read_all_list_all2 split: option.splits object.splits)
  from 0 have k: "k = length roster" by simp
  with a have "\<not> k < length ps"
    by (simp add: list_all2_lengthD)
  then have "person_for people ppn n costs k s = Some s"
    using extends_lookup [OF 0(2) l0] by (subst person_for.simps) simp
  with 0 k show ?case
    by (simp add: read_costs_def)
next
  case (Suc d)
  from people obtain ps where l0: "lookup s0 people = Some (PersonArray ps)"
    and a: "list_all2 (\<lambda>r p. read_person s0 r = Some p) ps roster"
    by (auto simp: read_people_def read_all_list_all2 split: option.splits object.splits)
  note ext = Suc.prems(1) and cs = Suc.prems(2) and acc = Suc.prems(3)
  from Suc have less: "k < length roster" and d: "d = length roster - (k + 1)"
    and le: "k + 1 \<le> length roster"
    by simp_all
  from a less have kps: "k < length ps"
    by (simp add: list_all2_lengthD)
  define person where "person = ps ! k"
  define p where "p = roster ! k"
  have rp: "read_person s0 person = Some p"
    unfolding person_def p_def using a kps by (rule list_all2_nthD)
  define perNightRef where "perNightRef = length s"
  define s1 where "s1 = s @ [NumberArray []]"
  have fresh1: "length s0 \<le> perNightRef"
    unfolding perNightRef_def by (rule extends_length [OF ext])
  have ext1: "extends s0 s1"
    unfolding s1_def by (rule extends_trans [OF ext extends_append])
  have pn1: "lookup s1 perNightRef = Some (NumberArray [])"
    by (simp add: s1_def perNightRef_def lookup_fresh)
  define pn where "pn = fst (night_loop roster ppn p n 0 ([], Num 0))"
  define tot where "tot = snd (night_loop roster ppn p n 0 ([], Num 0))"
  from night_for_refines [OF people rp fresh1 ext1 pn1, of ppn n 0 "Num 0"] obtain s2 where
    run: "night_for people ppn person n perNightRef 0 (Num 0) s1 = Some (tot, s2)"
    and pn2: "lookup s2 perNightRef = Some (NumberArray pn)"
    and ext2: "extends s0 s2"
    by (auto simp: pn_def tot_def)
  from night_for_frame [OF run]
  have "length s1 \<le> length s2" and "\<forall>x<length s1. x \<noteq> perNightRef \<longrightarrow> s2 ! x = s1 ! x"
    by simp_all
  then have ss2: "extends s s2"
    by (intro extendsI) (auto simp: s1_def perNightRef_def nth_append)
  from rp obtain nm f where po: "lookup s0 person = Some (PersonObj (id_p p) nm f)"
    unfolding read_person_cells by blast
  have po2: "lookup s2 person = Some (PersonObj (id_p p) nm f)"
    by (rule extends_lookup [OF ext2 po])
  define c where "c = length s2"
  define s3 where "s3 = s2 @ [CostObj (id_p p) perNightRef tot]"
  define s4 where "s4 = s3[costs := CostArray (cs @ [c])]"
  have ss3: "extends s s3"
    unfolding s3_def by (rule extends_trans [OF ss2 extends_append])
  have cs3: "lookup s3 costs = Some (CostArray cs)"
    by (rule extends_lookup [OF ss3 cs])
  then have push: "push_cost costs c s3 = Some s4"
    by (simp add: push_cost_def s4_def)
  have "extends s0 s3"
    unfolding s3_def by (rule extends_trans [OF ext2 extends_append])
  then have ext4: "extends s0 s4"
    unfolding s4_def by (rule extends_update [OF _ fresh])
  have cs4: "lookup s4 costs = Some (CostArray (cs @ [c]))"
    using lookup_less [OF cs3] by (simp add: s4_def lookup_update)
  have old: "read_all (read_cost s4) cs = Some acc"
  proof (rule read_all_mono [OF _ acc])
    fix x y assume "read_cost s x = Some y"
    then have "read_cost s3 x = Some y"
      by (rule extends_read_cost [OF ss3])
    then show "read_cost s4 x = Some y"
      unfolding s4_def by (rule read_cost_update [OF cs3])
  qed
  have costs_less: "costs < length s"
    by (rule lookup_less [OF cs])
  have len: "length s < length s2"
    using extends_length [OF ss2] lookup_less [OF pn2] \<open>length s1 \<le> length s2\<close>
    by (simp add: s1_def)
  have c_cell: "lookup s4 c = Some (CostObj (id_p p) perNightRef tot)"
    using costs_less len by (simp add: s4_def s3_def c_def lookup_update nth_append)
  have pn3: "lookup s3 perNightRef = Some (NumberArray pn)"
    unfolding s3_def by (rule lookup_append [OF pn2])
  have pn4: "lookup s4 perNightRef = Some (NumberArray pn)"
    using pn3 costs_less lookup_less [OF pn3]
    by (simp add: s4_def lookup_update perNightRef_def lookup_def)
  have new: "read_cost s4 c = Some \<lparr>personId = id_p p, perNight = pn, total_c = tot\<rparr>"
    by (simp add: read_cost_def c_cell pn4)
  have acc4: "read_all (read_cost s4) (cs @ [c]) =
      Some (acc @ [\<lparr>personId = id_p p, perNight = pn, total_c = tot\<rparr>])"
    by (rule read_all_append [OF old new])
  from Suc.hyps(1) [OF d ext4 cs4 acc4 le, of] obtain s' where
    r: "person_for people ppn n costs (k + 1) s4 = Some s'" and e: "extends s0 s'"
    and res: "read_costs s' costs = Some (person_loop roster ppn n (drop (k + 1) roster)
        (acc @ [\<lparr>personId = id_p p, perNight = pn, total_c = tot\<rparr>]))"
    by blast
  have "drop k roster = p # drop (k + 1) roster"
    using less by (simp add: p_def Cons_nth_drop_Suc)
  then have loop: "person_loop roster ppn n (drop k roster) acc =
      person_loop roster ppn n (drop (k + 1) roster)
        (acc @ [\<lparr>personId = id_p p, perNight = pn, total_c = tot\<rparr>])"
    by (simp add: pn_def tot_def split: prod.splits)
  have "person_for people ppn n costs k s = person_for people ppn n costs (k + 1) s4"
    using kps extends_lookup [OF ext l0]
    by (subst person_for.simps)
      (simp add: alloc_def person_def [symmetric] perNightRef_def [symmetric] s1_def [symmetric]
        run po2 c_def [symmetric] s3_def [symmetric] push)
  with r have "person_for people ppn n costs k s = Some s'"
    by simp
  moreover from res have "read_costs s' costs = Some (person_loop roster ppn n (drop k roster) acc)"
    by (simp only: loop)
  ultimately have "person_for people ppn n costs k s = Some s' \<and> extends s0 s' \<and>
       read_costs s' costs = Some (person_loop roster ppn n (drop k roster) acc)"
    using e by simp
  then show ?case
    by (rule exI)
qed

lemma calculateCosts_run_refines:
  assumes "read_people s people = Some roster"
  shows "\<exists>costs s'. calculateCosts_run people totalPrice n s = Some (costs, s') \<and>
     extends s s' \<and> read_costs s' costs = Some (calculateCosts roster totalPrice n)"
proof -
  from assms obtain ps where l: "lookup s people = Some (PersonArray ps)"
    and a: "list_all2 (\<lambda>r p. read_person s r = Some p) ps roster"
    by (auto simp: read_people_def read_all_list_all2 split: option.splits object.splits)
  have len: "people_length s people = Some (length roster)"
    using l a by (simp add: people_length_def list_all2_lengthD)
  have empty: "extends s (s @ [CostArray []]) \<and>
      read_costs (s @ [CostArray []]) (length s) = Some []"
    by (simp add: extends_append read_costs_def lookup_fresh)
  show ?thesis
  proof (cases "n = 0 \<or> js_eq totalPrice (Num 0) \<or> roster = []")
    case True
    then have "calculateCosts roster totalPrice n = []"
      by (auto simp: calculateCosts_def)
    moreover from True have "calculateCosts_run people totalPrice n s =
        Some (length s, s @ [CostArray []])"
      by (auto simp: calculateCosts_run_def len alloc_def)
    ultimately show ?thesis
      using empty by simp
  next
    case False
    define ppn where "ppn = fdiv totalPrice (of_count n)"
    define s1 where "s1 = s @ [CostArray []]"
    have ext: "extends s s1"
      by (simp add: s1_def extends_append)
    have p1: "read_people s1 people = Some roster"
      by (rule extends_read_people [OF ext assms])
    have c1: "lookup s1 (length s) = Some (CostArray [])"
      by (simp add: s1_def lookup_fresh)
    have "read_all (read_cost s1) [] = Some []"
      by simp
    from person_for_refines [OF assms order_refl ext c1 this, of 0 ppn n] obtain s' where
      r: "person_for people ppn n (length s) 0 s1 = Some s'" and e: "extends s s'"
      and res: "read_costs s' (length s) = Some (person_loop roster ppn n roster [])"
      by auto
    from False have "calculateCosts roster totalPrice n = person_loop roster ppn n roster []"
      by (simp add: calculateCosts_def ppn_def)
    moreover from False have "calculateCosts_run people totalPrice n s = Some (length s, s')"
      by (simp add: calculateCosts_run_def len alloc_def ppn_def [symmetric] s1_def [symmetric] r)
    ultimately show ?thesis
      using e res by simp
  qed
qed

section \<open>Determinism\<close>

text \<open>
  C8. \<open>calculateCosts\<close> is a function of the values of its arguments, and it writes to
  nothing that exists when it is called. On every store \<open>s\<close> in which the reference
  \<open>people\<close> holds a roster: the call returns; the costs it returns are those of the
  function on values, \<open>calculateCosts roster totalPrice n\<close>, whatever else the store
  holds; a second call with the same arguments, on the store the first call leaves,
  returns equal costs, and so does a call on any other store \<open>u\<close> with a reference
  holding an equal roster; each call only extends its store, so that no object that
  existed before the call is changed, and the roster read after the calls is the roster
  read before.
\<close>

theorem calculateCosts_deterministic:
  assumes "read_people s people = Some roster" and "read_people u people' = Some roster"
  shows "\<exists>c1 t1 c2 t2 c3 t3.
     calculateCosts_run people totalPrice n s = Some (c1, t1) \<and>
     calculateCosts_run people totalPrice n t1 = Some (c2, t2) \<and>
     calculateCosts_run people' totalPrice n u = Some (c3, t3) \<and>
     read_costs t1 c1 = Some (calculateCosts roster totalPrice n) \<and>
     read_costs t2 c2 = read_costs t1 c1 \<and>
     read_costs t3 c3 = read_costs t1 c1 \<and>
     extends s t1 \<and> extends t1 t2 \<and> extends u t3 \<and>
     read_people t1 people = Some roster \<and> read_people t2 people = Some roster"
proof -
  from calculateCosts_run_refines [OF assms(1), of totalPrice n] obtain c1 t1 where
    r1: "calculateCosts_run people totalPrice n s = Some (c1, t1)" and e1: "extends s t1"
    and v1: "read_costs t1 c1 = Some (calculateCosts roster totalPrice n)"
    by blast
  have p1: "read_people t1 people = Some roster"
    by (rule extends_read_people [OF e1 assms(1)])
  from calculateCosts_run_refines [OF p1, of totalPrice n] obtain c2 t2 where
    r2: "calculateCosts_run people totalPrice n t1 = Some (c2, t2)" and e2: "extends t1 t2"
    and v2: "read_costs t2 c2 = Some (calculateCosts roster totalPrice n)"
    by blast
  have p2: "read_people t2 people = Some roster"
    by (rule extends_read_people [OF e2 p1])
  from calculateCosts_run_refines [OF assms(2), of totalPrice n] obtain c3 t3 where
    r3: "calculateCosts_run people' totalPrice n u = Some (c3, t3)" and e3: "extends u t3"
    and v3: "read_costs t3 c3 = Some (calculateCosts roster totalPrice n)"
    by blast
  from v1 v2 v3 have "read_costs t2 c2 = read_costs t1 c1" "read_costs t3 c3 = read_costs t1 c1"
    by simp_all
  with r1 r2 r3 v1 e1 e2 e3 p1 p2 show ?thesis
    by blast
qed

theorem calculateCosts_deterministic_witness:
  "\<exists>c1 t1 c2 t2.
     calculateCosts_run 2 (Num 100) 2
       [Flags [True, False], PersonObj ''1'' ''Alice'' 0, PersonArray [1]] = Some (c1, t1) \<and>
     calculateCosts_run 2 (Num 100) 2 t1 = Some (c2, t2) \<and>
     read_costs t2 c2 = read_costs t1 c1 \<and>
     extends [Flags [True, False], PersonObj ''1'' ''Alice'' 0, PersonArray [1]] t1 \<and>
     read_people t2 2 = Some [\<lparr>id_p = ''1'', name = ''Alice'', nights = [True, False]\<rparr>]"
proof -
  let ?s = "[Flags [True, False], PersonObj ''1'' ''Alice'' 0, PersonArray [1]]"
  have "read_people ?s 2 = Some [\<lparr>id_p = ''1'', name = ''Alice'', nights = [True, False]\<rparr>]"
    by (simp add: read_people_def read_person_def lookup_def)
  from calculateCosts_deterministic [OF this this, of "Num 100" 2]
  show ?thesis
    by blast
qed

end
